theory Spec2Isabelle
  imports Complex_Main "HOL-Library.Word" "HOL-Library.Sublist" "HOL-Library.List_Lexorder"
    "HOL-Library.Log_Nat"
begin

section \<open>The proof keeper of pocket-core: x/pocketcore/keeper/proof.go\<close>

text \<open>
  A shallow embedding of \<^verbatim>\<open>x/pocketcore/keeper/proof.go\<close>. Go's \<^verbatim>\<open>int64\<close> is a
  64-bit word read as two's complement, so \<open>+\<close>, \<open>-\<close> and \<open>*\<close> wrap around as they do
  in Go; comparisons go through \<open>sint\<close>. A Go panic is the left summand of the result.
  Go's \<^verbatim>\<open>float64\<close> is the IEEE 754 binary64 format with its rounding, and the functions of
  package math that the file calls are embedded from their Go sources.
\<close>

subsection \<open>Machine integers, bytes and panics\<close>

type_synonym int64 = "64 word"
type_synonym byte = "8 word"
type_synonym bytes = "byte list"

datatype panic =
    IndexOutOfRange
  | SliceBoundsOutOfRange
  | IntegerDivideByZero
  | CodecPanic
  | PanicErr string

text \<open>Go's \<^verbatim>\<open>/\<close> and \<^verbatim>\<open>%\<close> truncate towards zero (HOL's \<open>div\<close> rounds down).\<close>

definition tdiv :: "int \<Rightarrow> int \<Rightarrow> int" where
  "tdiv a b = sgn a * sgn b * (\<bar>a\<bar> div \<bar>b\<bar>)"

definition tmod :: "int \<Rightarrow> int \<Rightarrow> int" where
  "tmod a b = sgn a * (\<bar>a\<bar> mod \<bar>b\<bar>)"

text \<open>\<^verbatim>\<open>a / b\<close> on \<^verbatim>\<open>int64\<close>: a run-time panic when \<open>b = 0\<close>; the quotient of the most
  negative value by \<open>-1\<close> wraps to itself, as the Go specification says.\<close>

definition int64_quo :: "int64 \<Rightarrow> int64 \<Rightarrow> panic + int64" where
  "int64_quo a b = (if b = 0 then Inl IntegerDivideByZero else Inr (word_of_int (tdiv (sint a) (sint b))))"

definition int64_rem :: "int64 \<Rightarrow> int64 \<Rightarrow> panic + int64" where
  "int64_rem a b = (if b = 0 then Inl IntegerDivideByZero else Inr (word_of_int (tmod (sint a) (sint b))))"

subsection \<open>encoding/hex and strconv\<close>

definition hextable :: string where
  "hextable = ''0123456789abcdef''"

text \<open>\<^verbatim>\<open>hex.EncodeToString\<close>: two lower-case digits per byte.\<close>

definition hex_EncodeToString :: "bytes \<Rightarrow> string" where
  "hex_EncodeToString src =
     concat (map (\<lambda>v. [hextable ! (unat v div 16), hextable ! (unat v mod 16)]) src)"

definition hexDigitVal :: "char \<Rightarrow> nat option" where
  "hexDigitVal c =
     (let n = of_char c :: nat in
      if 48 \<le> n \<and> n \<le> 57 then Some (n - 48)
      else if 97 \<le> n \<and> n \<le> 102 then Some (n - 97 + 10)
      else if 65 \<le> n \<and> n \<le> 70 then Some (n - 65 + 10)
      else None)"

fun parseUintHex :: "nat \<Rightarrow> string \<Rightarrow> nat option" where
  "parseUintHex acc [] = Some acc"
| "parseUintHex acc (c # cs) =
     (case hexDigitVal c of
        None \<Rightarrow> None
      | Some d \<Rightarrow> parseUintHex (16 * acc + d) cs)"

text \<open>\<^verbatim>\<open>strconv.ParseInt(s, 16, 64)\<close>: an optional sign, then at least one hexadecimal
  digit; \<open>None\<close> is the \<^verbatim>\<open>*NumError\<close> (syntax or range) that every call site turns into
  a panic.\<close>

definition strconv_ParseInt :: "string \<Rightarrow> int64 option" where
  "strconv_ParseInt s =
     (case s of
        [] \<Rightarrow> None
      | c # cs \<Rightarrow>
          (let neg = (c = CHR ''-'');
               digits = (if c = CHR ''+'' \<or> c = CHR ''-'' then cs else s)
           in if digits = [] then None
              else (case parseUintHex 0 digits of
                      None \<Rightarrow> None
                    | Some n \<Rightarrow>
                        if neg then (if 2 ^ 63 < n then None else Some (- word_of_nat n))
                        else (if 2 ^ 63 \<le> n then None else Some (word_of_nat n)))))"

subsection \<open>float64 and package math\<close>

text \<open>\<^verbatim>\<open>ValidateProof\<close> computes the depth of the Merkle tree in floating point:
  \<^verbatim>\<open>int(math.Ceil(math.Log2(float64(n))))\<close>. A \<^verbatim>\<open>float64\<close> is an IEEE 754 binary64 value:
  a finite number \<open>m * 2\<^sup>e\<close>, written \<open>Fin m e\<close>, an infinity, or a NaN. An arithmetic operation
  gives its exact result rounded to the nearest \<^verbatim>\<open>float64\<close>, a tie to the one whose last
  binary digit is even, and each operation is rounded on its own (on amd64 the Go compiler
  fuses no multiplication with an addition, and \<^verbatim>\<open>math.Log\<close> is the same sequence of
  operations in assembly). One number has many pairs \<open>(m, e)\<close>, so comparisons go through
  \<open>f64_less\<close> and \<open>f64_eq\<close>. The sign of a zero is not kept: it shows only in a division by
  zero, and the one division of this file has a divisor of at least 1.\<close>

datatype float64 = Fin int int | PosInf | NegInf | NaN

text \<open>The number of binary digits of \<open>\<bar>m\<bar>\<close>; and \<open>a / 2\<^sup>s\<close> rounded to the nearest integer, a
  tie to the even one, for \<open>0 \<le> a\<close>.\<close>

definition bit_length :: "int \<Rightarrow> nat" where
  "bit_length m = floorlog 2 (nat \<bar>m\<bar>)"

definition round_half_even :: "int \<Rightarrow> nat \<Rightarrow> int" where
  "round_half_even a s =
     (let q = a div 2 ^ s; r = a mod 2 ^ s
      in if 2 * r < 2 ^ s then q
         else if 2 ^ s < 2 * r then q + 1
         else if even q then q else q + 1)"

text \<open>The \<^verbatim>\<open>float64\<close> nearest to \<open>m * 2\<^sup>e\<close>: at most 53 binary digits, none of them below
  \<^verbatim>\<open>2^-1074\<close> (the subnormal numbers have fewer digits), and an infinity when the rounded
  number reaches \<^verbatim>\<open>2^1024\<close>. \<open>q\<close> is the exponent of the last digit kept.\<close>

definition round_float64 :: "int \<Rightarrow> int \<Rightarrow> float64" where
  "round_float64 m e =
     (if m = 0 then Fin 0 0
      else let q = max (e + int (bit_length m) - 53) (- 1074);
               n = (if q \<le> e then \<bar>m\<bar> * 2 ^ nat (e - q)
                    else round_half_even \<bar>m\<bar> (nat (q - e)))
           in if 1024 < q + int (bit_length n) then (if 0 < m then PosInf else NegInf)
              else Fin (sgn m * n) q)"

text \<open>\<^verbatim>\<open>float64(n)\<close> of an integer \<open>n\<close> (\<^verbatim>\<open>int\<close> and \<^verbatim>\<open>int64\<close> alike).\<close>

definition float64_of_int :: "int \<Rightarrow> float64" where
  "float64_of_int n = round_float64 n 0"

text \<open>\<^verbatim>\<open>x < y\<close> and \<^verbatim>\<open>x == y\<close>: both false when an operand is a NaN.\<close>

definition fin_less :: "int \<Rightarrow> int \<Rightarrow> int \<Rightarrow> int \<Rightarrow> bool" where
  "fin_less m1 e1 m2 e2 =
     (m1 * 2 ^ nat (e1 - min e1 e2) < m2 * 2 ^ nat (e2 - min e1 e2))"

fun f64_less :: "float64 \<Rightarrow> float64 \<Rightarrow> bool" where
  "f64_less (Fin m1 e1) (Fin m2 e2) = fin_less m1 e1 m2 e2"
| "f64_less NaN y = False"
| "f64_less x NaN = False"
| "f64_less NegInf y = (y \<noteq> NegInf)"
| "f64_less x PosInf = (x \<noteq> PosInf)"
| "f64_less x y = False"

fun f64_eq :: "float64 \<Rightarrow> float64 \<Rightarrow> bool" where
  "f64_eq (Fin m1 e1) (Fin m2 e2) = (\<not> fin_less m1 e1 m2 e2 \<and> \<not> fin_less m2 e2 m1 e1)"
| "f64_eq NaN y = False"
| "f64_eq x NaN = False"
| "f64_eq x y = (x = y)"

text \<open>Negation, addition, subtraction, multiplication and division. An infinity or a NaN
  among the operands gives what IEEE 754 says: a NaN for \<open>\<infinity> - \<infinity>\<close>, \<open>0 * \<infinity>\<close>, \<open>\<infinity> / \<infinity>\<close>
  and \<open>0 / 0\<close>. The quotient of two finite numbers is not a finite binary number in
  general: its first digits (more than 55 of them) are followed by one digit that says
  whether anything is left, which rounds as the quotient itself does.\<close>

fun f64_neg :: "float64 \<Rightarrow> float64" where
  "f64_neg (Fin m e) = Fin (- m) e"
| "f64_neg PosInf = NegInf"
| "f64_neg NegInf = PosInf"
| "f64_neg NaN = NaN"

fun f64_sgn :: "float64 \<Rightarrow> int" where
  "f64_sgn (Fin m e) = sgn m"
| "f64_sgn PosInf = 1"
| "f64_sgn NegInf = - 1"
| "f64_sgn NaN = 0"

fun f64_add :: "float64 \<Rightarrow> float64 \<Rightarrow> float64" where
  "f64_add (Fin m1 e1) (Fin m2 e2) =
     round_float64 (m1 * 2 ^ nat (e1 - min e1 e2) + m2 * 2 ^ nat (e2 - min e1 e2)) (min e1 e2)"
| "f64_add NaN y = NaN"
| "f64_add x NaN = NaN"
| "f64_add PosInf y = (if y = NegInf then NaN else PosInf)"
| "f64_add NegInf y = (if y = PosInf then NaN else NegInf)"
| "f64_add x y = y"

definition f64_sub :: "float64 \<Rightarrow> float64 \<Rightarrow> float64" where
  "f64_sub x y = f64_add x (f64_neg y)"

fun f64_mul :: "float64 \<Rightarrow> float64 \<Rightarrow> float64" where
  "f64_mul (Fin m1 e1) (Fin m2 e2) = round_float64 (m1 * m2) (e1 + e2)"
| "f64_mul x y =
     (if f64_sgn x * f64_sgn y = 0 then NaN
      else if 0 < f64_sgn x * f64_sgn y then PosInf else NegInf)"

fun f64_quo :: "float64 \<Rightarrow> float64 \<Rightarrow> float64" where
  "f64_quo (Fin m1 e1) (Fin m2 e2) =
     (if m2 = 0 then (if m1 = 0 then NaN else if 0 < m1 then PosInf else NegInf)
      else let sh = 55 + bit_length m2;
               a = \<bar>m1\<bar> * 2 ^ sh;
               digits = 2 * (a div \<bar>m2\<bar>) + (if a mod \<bar>m2\<bar> = 0 then 0 else 1)
           in round_float64 (sgn m1 * sgn m2 * digits) (e1 - e2 - int sh - 1))"
| "f64_quo NaN y = NaN"
| "f64_quo x NaN = NaN"
| "f64_quo (Fin m e) y = Fin 0 0"
| "f64_quo x (Fin m e) = (if 0 \<le> sgn m then x else f64_neg x)"
| "f64_quo x y = NaN"

text \<open>\<^verbatim>\<open>math.Frexp(f)\<close>: \<open>f = frac * 2\<^sup>e\<^sup>x\<^sup>p\<close> with \<open>1/2 \<le> \<bar>frac\<bar> < 1\<close>; a zero, an infinity and
  a NaN come back as they are, with the exponent 0.\<close>

definition math_Frexp :: "float64 \<Rightarrow> float64 \<times> int" where
  "math_Frexp f =
     (case f of
        Fin m e \<Rightarrow>
          if m = 0 then (f, 0)
          else (Fin m (- int (bit_length m)), e + int (bit_length m))
      | _ \<Rightarrow> (f, 0))"

text \<open>The constants of \<^verbatim>\<open>math.Log\<close>, with the bits that log.go gives beside each decimal
  literal, and the two constant expressions \<^verbatim>\<open>Sqrt2/2\<close> and \<^verbatim>\<open>1/Ln2\<close>, which the compiler
  evaluates exactly and rounds once.
  \<^verbatim>\<open>
  Ln2Hi = 6.93147180369123816490e-01 /* 3fe62e42 fee00000 */
  Ln2Lo = 1.90821492927058770002e-10 /* 3dea39ef 35793c76 */
  L1    = 6.666666666666735130e-01   /* 3FE55555 55555593 */
  L2    = 3.999999999940941908e-01   /* 3FD99999 9997FA04 */
  L3    = 2.857142874366239149e-01   /* 3FD24924 94229359 */
  L4    = 2.222219843214978396e-01   /* 3FCC71C5 1D8E78AF */
  L5    = 1.818357216161805012e-01   /* 3FC74664 96CB03DE */
  L6    = 1.531383769920937332e-01   /* 3FC39A09 D078C69F */
  L7    = 1.479819860511658591e-01   /* 3FC2F112 DF3E5244 */
  \<close>
  The last 52 bits are the digits of the number after its leading 1, and the 11 bits before
  them are its exponent plus 1023.\<close>

definition Ln2Hi :: float64 where "Ln2Hi = Fin 0x162E42FEE00000 (- 53)"
definition Ln2Lo :: float64 where "Ln2Lo = Fin 0x1A39EF35793C76 (- 85)"
definition L1 :: float64 where "L1 = Fin 0x15555555555593 (- 53)"
definition L2 :: float64 where "L2 = Fin 0x1999999997FA04 (- 54)"
definition L3 :: float64 where "L3 = Fin 0x12492494229359 (- 54)"
definition L4 :: float64 where "L4 = Fin 0x1C71C51D8E78AF (- 55)"
definition L5 :: float64 where "L5 = Fin 0x17466496CB03DE (- 55)"
definition L6 :: float64 where "L6 = Fin 0x139A09D078C69F (- 55)"
definition L7 :: float64 where "L7 = Fin 0x12F112DF3E5244 (- 55)"

text \<open>\<^verbatim>\<open>Sqrt2/2\<close> is \<^verbatim>\<open>0.70710678118654752440...\<close> (bits \<^verbatim>\<open>3FE6A09E 667F3BCD\<close>) and \<^verbatim>\<open>1/Ln2\<close> is
  \<^verbatim>\<open>1.44269504088896340735...\<close> (bits \<^verbatim>\<open>3FF71547 652B82FE\<close>).\<close>

definition Sqrt2_half :: float64 where "Sqrt2_half = Fin 0x16A09E667F3BCD (- 53)"
definition inv_Ln2 :: float64 where "inv_Ln2 = Fin 0x171547652B82FE (- 52)"

text \<open>
  \<^verbatim>\<open>
  func log(x float64) float64 {
      switch {
      case IsNaN(x) || IsInf(x, 1): return x
      case x < 0: return NaN()
      case x == 0: return Inf(-1)
      }
      f1, ki := Frexp(x)
      if f1 < Sqrt2/2 { f1 *= 2; ki-- }
      f := f1 - 1
      k := float64(ki)
      s := f / (2 + f)
      s2 := s * s
      s4 := s2 * s2
      t1 := s2 * (L1 + s4*(L3+s4*(L5+s4*L7)))
      t2 := s4 * (L2 + s4*(L4+s4*L6))
      R := t1 + t2
      hfsq := 0.5 * f * f
      return k*Ln2Hi - ((hfsq - (s*(hfsq+R) + k*Ln2Lo)) - f)
  }
  \<close>\<close>

definition math_Log :: "float64 \<Rightarrow> float64" where
  "math_Log x =
     (if x = NaN \<or> x = PosInf then x
      else if f64_less x (Fin 0 0) then NaN
      else if f64_eq x (Fin 0 0) then NegInf
      else
        let (f1, ki) = math_Frexp x;
            (f1, ki) = (if f64_less f1 Sqrt2_half then (f64_mul f1 (Fin 2 0), ki - 1)
                        else (f1, ki));
            f = f64_sub f1 (Fin 1 0);
            k = float64_of_int ki;
            s = f64_quo f (f64_add (Fin 2 0) f);
            s2 = f64_mul s s;
            s4 = f64_mul s2 s2;
            t1 = f64_mul s2
                   (f64_add L1 (f64_mul s4 (f64_add L3 (f64_mul s4 (f64_add L5 (f64_mul s4 L7))))));
            t2 = f64_mul s4 (f64_add L2 (f64_mul s4 (f64_add L4 (f64_mul s4 L6))));
            R = f64_add t1 t2;
            hfsq = f64_mul (f64_mul (Fin 1 (- 1)) f) f
        in f64_sub (f64_mul k Ln2Hi)
             (f64_sub (f64_sub hfsq (f64_add (f64_mul s (f64_add hfsq R)) (f64_mul k Ln2Lo))) f))"

text \<open>
  \<^verbatim>\<open>
  func log2(x float64) float64 {
      frac, exp := Frexp(x)
      // Make sure exact powers of two give an exact answer.
      // Don't depend on Log(0.5)*(1/Ln2)+exp being exactly exp-1.
      if frac == 0.5 { return float64(exp - 1) }
      return Log(frac)*(1/Ln2) + float64(exp)
  }
  \<close>\<close>

definition math_Log2 :: "float64 \<Rightarrow> float64" where
  "math_Log2 x =
     (let (frac', exp') = math_Frexp x
      in if f64_eq frac' (Fin 1 (- 1)) then float64_of_int (exp' - 1)
         else f64_add (f64_mul (math_Log frac') inv_Ln2) (float64_of_int exp'))"

text \<open>\<^verbatim>\<open>math.Floor(x)\<close> is the greatest integer not above \<open>x\<close>, and \<^verbatim>\<open>math.Ceil(x)\<close> is
  \<^verbatim>\<open>-Floor(-x)\<close>; an infinity and a NaN come back as they are. The integer is a \<^verbatim>\<open>float64\<close>:
  it has no more digits than \<open>x\<close>.\<close>

definition math_Floor :: "float64 \<Rightarrow> float64" where
  "math_Floor x =
     (case x of
        Fin m e \<Rightarrow> if 0 \<le> e then x else Fin (m div 2 ^ nat (- e)) 0
      | _ \<Rightarrow> x)"

definition math_Ceil :: "float64 \<Rightarrow> float64" where
  "math_Ceil x = f64_neg (math_Floor (f64_neg x))"

text \<open>\<^verbatim>\<open>int(x)\<close> of a \<^verbatim>\<open>float64\<close>: the fraction is discarded (truncation towards zero). When
  the result is no \<^verbatim>\<open>int\<close> (64 bits), and for an infinity and a NaN, the Go specification
  leaves the value to the implementation: it is \<open>unrepresentable x\<close>.\<close>

definition int_of_float64 :: "(float64 \<Rightarrow> int) \<Rightarrow> float64 \<Rightarrow> int" where
  "int_of_float64 unrepresentable x =
     (case x of
        Fin m e \<Rightarrow>
          (let t = (if 0 \<le> e then m * 2 ^ nat e else sgn m * (\<bar>m\<bar> div 2 ^ nat (- e)))
           in if - (2 ^ 63) \<le> t \<and> t < 2 ^ 63 then t else unrepresentable x)
      | _ \<Rightarrow> unrepresentable x)"

text \<open>\<open>x\<close> is a \<^verbatim>\<open>float64\<close> nearest to the rational number \<open>r\<close>: 53 binary digits, at most
  half a unit of the last one away from \<open>r\<close>.\<close>

definition f64_unit :: "int \<Rightarrow> rat" where
  "f64_unit e = (if 0 \<le> e then 2 ^ nat e else 1 / 2 ^ nat (- e))"

definition nearest_float64 :: "float64 \<Rightarrow> rat \<Rightarrow> bool" where
  "nearest_float64 x r \<longleftrightarrow>
     (case x of
        Fin m e \<Rightarrow>
          2 ^ 52 \<le> \<bar>m\<bar> \<and> \<bar>m\<bar> < 2 ^ 53 \<and> \<bar>of_int m * f64_unit e - r\<bar> \<le> f64_unit e / 2
      | _ \<Rightarrow> False)"

subsection \<open>The data of package types (pc) and of the SDK that the file reads\<close>

text \<open>Modelled from the spec: the types of package types (\<^verbatim>\<open>pc.SessionHeader\<close>,
  \<^verbatim>\<open>pc.MsgClaim\<close>, \<^verbatim>\<open>pc.MsgProof\<close>, \<^verbatim>\<open>pc.MerkleProof\<close>, \<^verbatim>\<open>pc.RelayProof\<close>, \<^verbatim>\<open>pc.Invoice\<close>,
  \<^verbatim>\<open>pc.StoredInvoice\<close>) and of the SDK (\<^verbatim>\<open>sdk.Context\<close>, \<^verbatim>\<open>sdk.Address\<close>) are declared outside
  this file. Each record below has the fields this file reads, under the names it reads
  them by, with the types the specification's data model gives them.\<close>

type_synonym Address = bytes
type_synonym HashSum = bytes

datatype Error =
    InvalidProofsError string
  | InvalidMerkleVerifyError string
  | OtherError string

record SessionHeader =
  ApplicationPubKey :: string
  Chain :: string
  SessionBlockHeight :: int64

text \<open>The token and the relay proof are declared outside this file: the fields it reads,
  and the rest of each record as opaque bytes.\<close>

record AAT =
  ClientPublicKey :: string
  AAT_rest :: bytes

record RelayProof =
  Token :: AAT
  Signature :: string
  RelayProof_rest :: bytes

record MerkleProof =
  Index :: int64
  HashSums :: "HashSum list"

text \<open>The local work cache's entry and the settled record; both are declared outside this
  file, which reads the fields below.\<close>

record Invoice =
  SessionHeader :: SessionHeader
  TotalRelays :: int64
  Proofs :: "RelayProof list"

record StoredInvoice =
  ServicerAddress :: string
  SessionHeader :: SessionHeader
  TotalRelays :: int64

text \<open>\<^verbatim>\<open>MsgClaim\<close> embeds the session header: \<^verbatim>\<open>msg.SessionBlockHeight\<close> is
  \<^verbatim>\<open>msg.SessionHeader.SessionBlockHeight\<close>.\<close>

record MsgClaim =
  SessionHeader :: SessionHeader
  MerkleRoot :: HashSum
  TotalRelays :: int64
  FromAddress :: Address

text \<open>\<^verbatim>\<open>MsgProof\<close> carries the Merkle proofs, the leaf and the cousin. The Merkle proofs of a
  proof transaction are the array \<^verbatim>\<open>[2]pc.MerkleProof\<close>: that is the type under which
  \<^verbatim>\<open>SendProofTx\<close> hands the result of \<^verbatim>\<open>GenerateMerkleProof\<close> to its transaction sender
  (\<^verbatim>\<open>branches [2]pc.MerkleProof\<close>). An array of two elements is a pair; \<^verbatim>\<open>MerkleProofs[0]\<close> is
  its first component, and the index 0 is within the bounds of every value of the type.\<close>

type_synonym MerkleProofs = "MerkleProof \<times> MerkleProof"

record MsgProof =
  MerkleProofs :: MerkleProofs
  Leaf :: RelayProof
  Cousin :: RelayProof

record Header =
  Height :: int64
  LastBlockId_Hash :: bytes

record Context =
  BlockHeader :: Header

definition BlockHeight :: "Context \<Rightarrow> int64" where
  "BlockHeight ctx = Height (BlockHeader ctx)"

text \<open>\<^verbatim>\<open>ctx.WithBlockHeight(h)\<close> of the SDK: the same context with the height of its block
  header set to \<open>h\<close>.\<close>

definition WithBlockHeight :: "Context \<Rightarrow> int64 \<Rightarrow> Context" where
  "WithBlockHeight ctx h = ctx\<lparr>BlockHeader := (BlockHeader ctx)\<lparr>Height := h\<rparr>\<rparr>"

text \<open>The codec \<^verbatim>\<open>k.cdc\<close>: \<^verbatim>\<open>MustMarshalBinaryBare\<close> per stored type, and
  \<^verbatim>\<open>MustUnmarshalBinaryBare\<close>, whose \<open>None\<close> is its panic.\<close>

record Codec =
  MarshalClaim :: "MsgClaim \<Rightarrow> bytes"
  UnmarshalClaim :: "bytes \<Rightarrow> MsgClaim option"
  MarshalInvoice :: "StoredInvoice \<Rightarrow> bytes"
  UnmarshalInvoice :: "bytes \<Rightarrow> StoredInvoice option"

text \<open>The keeper \<^verbatim>\<open>k\<close>: the governance parameters are methods of the keeper defined in
  other files; they read the parameter store through the context they are given.\<close>

record Keeper =
  cdc :: Codec
  coinbasePassphrase :: string
  ProofWaitingPeriod :: "Context \<Rightarrow> int64"
  SessionFrequency :: "Context \<Rightarrow> int64"
  ClaimExpiration :: "Context \<Rightarrow> int64"
  StakeDenom :: "Context \<Rightarrow> string"

text \<open>Modelled from the spec: the local work cache \<^verbatim>\<open>pc.GetAllInvoices()\<close> is declared in
  package types, outside this file. The specification has it as an in-memory mapping from
  session header to the accumulated relay proofs and a running total, and
  \<^verbatim>\<open>DeleteInvoice\<close> removes the header's entry. Its readers \<^verbatim>\<open>GetProofs\<close> and \<^verbatim>\<open>GetProof\<close>
  are parameters below.\<close>

type_synonym Invoices = "SessionHeader \<Rightarrow> Invoice option"

definition DeleteInvoice :: "Invoices \<Rightarrow> SessionHeader \<Rightarrow> Invoices" where
  "DeleteInvoice M hdr = M(hdr := None)"

text \<open>The package-level collaborators the file calls and that are declared elsewhere:
  those of package types (\<^verbatim>\<open>pc.Hash\<close>, the key builders, the Merkle, token and signature
  checks), each a parameter; and \<open>int_of_unrepresentable\<close>, the value that the conversion
  \<^verbatim>\<open>int(x)\<close> gives for a \<^verbatim>\<open>float64\<close> that \<^verbatim>\<open>int\<close> cannot represent, which the Go
  specification leaves to the implementation.\<close>

record Pc =
  ModuleName :: string
  Hash :: "bytes \<Rightarrow> bytes"
  HashString :: "SessionHeader \<Rightarrow> string"
  RelayProof_HashString :: "RelayProof \<Rightarrow> string"
  MerkleProofs_Validate ::
    "MerkleProofs \<Rightarrow> HashSum \<Rightarrow> RelayProof \<Rightarrow> RelayProof \<Rightarrow> int64 \<Rightarrow> bool"
  Token_Validate :: "AAT \<Rightarrow> Error option"
  SignatureVerification :: "string \<Rightarrow> string \<Rightarrow> string \<Rightarrow> Error option"
  int_of_unrepresentable :: "float64 \<Rightarrow> int"
  ClaimKey :: bytes
  InvoiceKey :: bytes
  KeyForClaim :: "Context \<Rightarrow> Address \<Rightarrow> SessionHeader \<Rightarrow> bytes"
  KeyForClaims :: "Address \<Rightarrow> bytes"
  KeyForInvoice :: "Context \<Rightarrow> Address \<Rightarrow> SessionHeader \<Rightarrow> bytes"
  GenerateMerkleProof :: "Invoice \<Rightarrow> int64 \<Rightarrow> MerkleProofs \<times> int64"
  GetProofs :: "Invoices \<Rightarrow> SessionHeader \<Rightarrow> RelayProof list"
  GetProof :: "Invoices \<Rightarrow> SessionHeader \<Rightarrow> int64 \<Rightarrow> RelayProof"

subsection \<open>GetPseudorandomIndex\<close>

record pseudorandomGenerator =
  blockHash :: string
  header :: string

text \<open>\<^verbatim>\<open>json.Marshal\<close> of a \<^verbatim>\<open>pseudorandomGenerator\<close>: encoding/json writes exported
  fields only, and both fields of the struct are unexported, so the encoding is the two
  bytes \<^verbatim>\<open>{}\<close> and the error is always nil.\<close>

definition json_Marshal :: "pseudorandomGenerator \<Rightarrow> bytes" where
  "json_Marshal g = [0x7B, 0x7D]"

text \<open>
  \<^verbatim>\<open>
  proofsHash := hex.EncodeToString(pc.Hash(r))[:15]
  var maxValue int64
  for i := 15; i > 0; i-- {
      maxValue, err = strconv.ParseInt(string(proofsHash[:i]), 16, 64)
      if err != nil { panic(err) }
      // if the total relays is greater than the resulting integer, ...
      if totalRelays >= maxValue {
          firstCharacter, err := strconv.ParseInt(string(proofsHash[0]), 16, 64)
          if err != nil { panic(err) }
          selection := firstCharacter%int64(i) + 1
          index, err := strconv.ParseInt(proofsHash[:selection], 16, 64)
          if err != nil { panic(err) }
          return index
      }
  }
  return 0
  \<close>
  The loop is a recursion on \<open>i\<close>, from 15 down to 1; \<open>proofsHash\<close> has 15 characters.\<close>

fun GetPseudorandomIndex_loop :: "string \<Rightarrow> int64 \<Rightarrow> nat \<Rightarrow> panic + int64" where
  "GetPseudorandomIndex_loop proofsHash totalRelays 0 = Inr 0"
| "GetPseudorandomIndex_loop proofsHash totalRelays (Suc n) =
     (let i = Suc n in
      case strconv_ParseInt (take i proofsHash) of
        None \<Rightarrow> Inl (PanicErr ''strconv.ParseInt'')
      | Some maxValue \<Rightarrow>
          if sint maxValue \<le> sint totalRelays then
            (case strconv_ParseInt [proofsHash ! 0] of
               None \<Rightarrow> Inl (PanicErr ''strconv.ParseInt'')
             | Some firstCharacter \<Rightarrow>
                 (case int64_rem firstCharacter (word_of_nat i) of
                    Inl p \<Rightarrow> Inl p
                  | Inr r \<Rightarrow>
                      (let selection = r + 1 in
                       if sint selection < 0 \<or> int (length proofsHash) < sint selection
                       then Inl SliceBoundsOutOfRange
                       else (case strconv_ParseInt (take (nat (sint selection)) proofsHash) of
                               None \<Rightarrow> Inl (PanicErr ''strconv.ParseInt'')
                             | Some index \<Rightarrow> Inr index))))
          else GetPseudorandomIndex_loop proofsHash totalRelays n)"

definition GetPseudorandomIndex ::
    "Pc \<Rightarrow> Keeper \<Rightarrow> Context \<Rightarrow> int64 \<Rightarrow> SessionHeader \<Rightarrow> panic + int64" where
  "GetPseudorandomIndex pc k ctx totalRelays hdr =
     (let proofContext =
            WithBlockHeight ctx
              (SessionBlockHeight hdr + ProofWaitingPeriod k ctx * SessionFrequency k ctx);
          proofBlockHeader = BlockHeader proofContext;
          r = json_Marshal
                \<lparr>blockHash = hex_EncodeToString (LastBlockId_Hash proofBlockHeader),
                 header = HashString pc hdr\<rparr>;
          digest = hex_EncodeToString (Hash pc r)
      in if length digest < 15 then Inl SliceBoundsOutOfRange
         else GetPseudorandomIndex_loop (take 15 digest) totalRelays 15)"

subsection \<open>ValidateProof\<close>

text \<open>
  \<^verbatim>\<open>
  reqProof := k.GetPseudorandomIndex(ctx, claimMsg.TotalRelays, claimMsg.SessionHeader)
  if reqProof != int64(proofMsg.MerkleProofs[0].Index) {
      return pc.NewInvalidProofsError(pc.ModuleName)
  }
  if len(proofMsg.MerkleProofs[0].HashSums) !=
         int(math.Ceil(math.Log2(float64(claimMsg.TotalRelays)))) {
      return pc.NewInvalidProofsError(pc.ModuleName)
  }
  if !proofMsg.MerkleProofs.Validate(claimMsg.MerkleRoot, proofMsg.Leaf, proofMsg.Cousin,
         claimMsg.TotalRelays) {
      return pc.NewInvalidMerkleVerifyError(pc.ModuleName)
  }
  if err := proofMsg.Leaf.Token.Validate(); err != nil { return err }
  if err := pc.SignatureVerification(proofMsg.Leaf.Token.ClientPublicKey,
         proofMsg.Leaf.HashString(), proofMsg.Leaf.Signature); err != nil { return err }
  return nil
  \<close>
  The result is \<open>Inr None\<close> for nil, \<open>Inr (Some err)\<close> for an error, \<open>Inl\<close> for a panic.
  \<^verbatim>\<open>MerkleProofs[0]\<close> is the first component of the pair, and \<^verbatim>\<open>float64(n)\<close> of an \<^verbatim>\<open>int64\<close>
  is the \<^verbatim>\<open>float64\<close> nearest to its value.\<close>

definition ValidateProof ::
    "Pc \<Rightarrow> Keeper \<Rightarrow> Context \<Rightarrow> MsgClaim \<Rightarrow> MsgProof \<Rightarrow> panic + Error option" where
  "ValidateProof pc k ctx claimMsg proofMsg =
     (case GetPseudorandomIndex pc k ctx (MsgClaim.TotalRelays claimMsg)
             (MsgClaim.SessionHeader claimMsg) of
        Inl p \<Rightarrow> Inl p
      | Inr reqProof \<Rightarrow>
          if reqProof \<noteq> Index (fst (MerkleProofs proofMsg))
          then Inr (Some (InvalidProofsError (ModuleName pc)))
          else if int (length (HashSums (fst (MerkleProofs proofMsg))))
                    \<noteq> int_of_float64 (int_of_unrepresentable pc)
                        (math_Ceil (math_Log2
                           (float64_of_int (sint (MsgClaim.TotalRelays claimMsg)))))
          then Inr (Some (InvalidProofsError (ModuleName pc)))
          else if \<not> MerkleProofs_Validate pc (MerkleProofs proofMsg) (MerkleRoot claimMsg)
                     (Leaf proofMsg) (Cousin proofMsg) (MsgClaim.TotalRelays claimMsg)
          then Inr (Some (InvalidMerkleVerifyError (ModuleName pc)))
          else (case Token_Validate pc (Token (Leaf proofMsg)) of
                  Some err \<Rightarrow> Inr (Some err)
                | None \<Rightarrow>
                    (case SignatureVerification pc (ClientPublicKey (Token (Leaf proofMsg)))
                            (RelayProof_HashString pc (Leaf proofMsg))
                            (Signature (Leaf proofMsg)) of
                       Some err \<Rightarrow> Inr (Some err)
                     | None \<Rightarrow> Inr None)))"

subsection \<open>ClaimIsMature\<close>

text \<open>
  \<^verbatim>\<open>
  waitingPeriodInBlocks := k.ProofWaitingPeriod(ctx) * k.SessionFrequency(ctx)
  if ctx.BlockHeight() >= waitingPeriodInBlocks+sessionBlockHeight { return true }
  return false
  \<close>\<close>

definition ClaimIsMature :: "Keeper \<Rightarrow> Context \<Rightarrow> int64 \<Rightarrow> bool" where
  "ClaimIsMature k ctx sessionBlockHeight =
     (let waitingPeriodInBlocks = ProofWaitingPeriod k ctx * SessionFrequency k ctx in
      if sint (waitingPeriodInBlocks + sessionBlockHeight) \<le> sint (BlockHeight ctx)
      then True else False)"

subsection \<open>The key-value store\<close>

text \<open>The store \<^verbatim>\<open>ctx.KVStore(k.storeKey)\<close> is an external collaborator: a finite map from
  byte strings to byte strings, iterated in the byte order of its keys. It is a list of
  entries here, kept in ascending key order by \<open>store_Set\<close>; the keeper's functions take
  the store and return the store they leave.\<close>

type_synonym KVStore = "(bytes \<times> bytes) list"

definition store_Get :: "KVStore \<Rightarrow> bytes \<Rightarrow> bytes option" where
  "store_Get store key = map_of store key"

fun store_Set :: "KVStore \<Rightarrow> bytes \<Rightarrow> bytes \<Rightarrow> KVStore" where
  "store_Set [] key v = [(key, v)]"
| "store_Set ((key', v') # rest) key v =
     (if key = key' then (key, v) # rest
      else if key < key' then (key, v) # (key', v') # rest
      else (key', v') # store_Set rest key v)"

definition store_Delete :: "KVStore \<Rightarrow> bytes \<Rightarrow> KVStore" where
  "store_Delete store key = filter (\<lambda>kv. fst kv \<noteq> key) store"

definition KVStorePrefixIterator :: "KVStore \<Rightarrow> bytes \<Rightarrow> (bytes \<times> bytes) list" where
  "KVStorePrefixIterator store p = filter (\<lambda>kv. prefix p (fst kv)) store"

text \<open>The store's invariant: keys strictly ascending, so no key is stored twice.\<close>

definition store_inv :: "KVStore \<Rightarrow> bool" where
  "store_inv store = sorted_wrt (<) (map fst store)"

subsection \<open>Stored invoices and claims\<close>

definition SessionHeader_zero :: SessionHeader where
  "SessionHeader_zero = \<lparr>ApplicationPubKey = [], Chain = [], SessionBlockHeight = 0\<rparr>"

definition MsgClaim_zero :: MsgClaim where
  "MsgClaim_zero =
     \<lparr>MsgClaim.SessionHeader = SessionHeader_zero, MerkleRoot = [],
      MsgClaim.TotalRelays = 0, FromAddress = []\<rparr>"

definition RelayProof_zero :: RelayProof where
  "RelayProof_zero =
     \<lparr>Token = \<lparr>ClientPublicKey = [], AAT_rest = []\<rparr>, Signature = [],
      RelayProof_rest = []\<rparr>"

definition MerkleProof_zero :: MerkleProof where
  "MerkleProof_zero = \<lparr>Index = 0, HashSums = []\<rparr>"

definition MsgProof_zero :: MsgProof where
  "MsgProof_zero =
     \<lparr>MerkleProofs = (MerkleProof_zero, MerkleProof_zero),
      Leaf = RelayProof_zero, Cousin = RelayProof_zero\<rparr>"

definition StoredInvoice_zero :: StoredInvoice where
  "StoredInvoice_zero =
     \<lparr>ServicerAddress = [], StoredInvoice.SessionHeader = SessionHeader_zero,
      StoredInvoice.TotalRelays = 0\<rparr>"

definition SetInvoice ::
    "Pc \<Rightarrow> Keeper \<Rightarrow> Context \<Rightarrow> KVStore \<Rightarrow> Address \<Rightarrow> StoredInvoice \<Rightarrow> KVStore" where
  "SetInvoice pc k ctx store address p =
     (let bz = MarshalInvoice (cdc k) p in
      store_Set store (KeyForInvoice pc ctx address (StoredInvoice.SessionHeader p)) bz)"

definition GetInvoice ::
    "Pc \<Rightarrow> Keeper \<Rightarrow> Context \<Rightarrow> KVStore \<Rightarrow> Address \<Rightarrow> SessionHeader
       \<Rightarrow> panic + (StoredInvoice \<times> bool)" where
  "GetInvoice pc k ctx store address hdr =
     (case store_Get store (KeyForInvoice pc ctx address hdr) of
        None \<Rightarrow> Inr (StoredInvoice_zero, False)
      | Some res \<Rightarrow>
          (case UnmarshalInvoice (cdc k) res of
             None \<Rightarrow> Inl CodecPanic
           | Some invoice \<Rightarrow> Inr (invoice, True)))"

definition SetClaim :: "Pc \<Rightarrow> Keeper \<Rightarrow> Context \<Rightarrow> KVStore \<Rightarrow> MsgClaim \<Rightarrow> KVStore" where
  "SetClaim pc k ctx store msg =
     (let bz = MarshalClaim (cdc k) msg in
      store_Set store (KeyForClaim pc ctx (FromAddress msg) (MsgClaim.SessionHeader msg)) bz)"

definition GetClaim ::
    "Pc \<Rightarrow> Keeper \<Rightarrow> Context \<Rightarrow> KVStore \<Rightarrow> Address \<Rightarrow> SessionHeader
       \<Rightarrow> panic + (MsgClaim \<times> bool)" where
  "GetClaim pc k ctx store address hdr =
     (case store_Get store (KeyForClaim pc ctx address hdr) of
        None \<Rightarrow> Inr (MsgClaim_zero, False)
      | Some res \<Rightarrow>
          (case UnmarshalClaim (cdc k) res of
             None \<Rightarrow> Inl CodecPanic
           | Some msg \<Rightarrow> Inr (msg, True)))"

definition DeleteClaim ::
    "Pc \<Rightarrow> Keeper \<Rightarrow> Context \<Rightarrow> KVStore \<Rightarrow> Address \<Rightarrow> SessionHeader \<Rightarrow> KVStore" where
  "DeleteClaim pc k ctx store address hdr =
     store_Delete store (KeyForClaim pc ctx address hdr)"

text \<open>\<^verbatim>\<open>GetMatureClaims\<close>: the iterator over the address's claims, in key order.\<close>

fun GetMatureClaims_loop ::
    "Keeper \<Rightarrow> Context \<Rightarrow> (bytes \<times> bytes) list \<Rightarrow> MsgClaim list \<Rightarrow> panic + MsgClaim list" where
  "GetMatureClaims_loop k ctx [] matureProofs = Inr matureProofs"
| "GetMatureClaims_loop k ctx ((key, val) # it) matureProofs =
     (case UnmarshalClaim (cdc k) val of
        None \<Rightarrow> Inl CodecPanic
      | Some msg \<Rightarrow>
          if ClaimIsMature k ctx (SessionBlockHeight (MsgClaim.SessionHeader msg))
          then GetMatureClaims_loop k ctx it (matureProofs @ [msg])
          else GetMatureClaims_loop k ctx it matureProofs)"

definition GetMatureClaims ::
    "Pc \<Rightarrow> Keeper \<Rightarrow> Context \<Rightarrow> KVStore \<Rightarrow> Address \<Rightarrow> panic + MsgClaim list" where
  "GetMatureClaims pc k ctx store address =
     GetMatureClaims_loop k ctx (KVStorePrefixIterator store (KeyForClaims pc address)) []"

subsection \<open>DeleteExpiredClaims\<close>

text \<open>
  \<^verbatim>\<open>
  iterator := sdk.KVStorePrefixIterator(store, pc.ClaimKey)
  for ; iterator.Valid(); iterator.Next() {
      k.cdc.MustUnmarshalBinaryBare(iterator.Value(), &msg)
      sessionContext := ctx.WithBlockHeight(msg.SessionBlockHeight)
      if (ctx.BlockHeight()-msg.SessionBlockHeight)/k.SessionFrequency(sessionContext) >=
             k.ClaimExpiration(sessionContext) {
          store.Delete(iterator.Key())
      }
  }
  \<close>
  The iterator walks the claims that were stored when it was opened; each expired one
  is deleted from the store by its key.\<close>

fun DeleteExpiredClaims_loop ::
    "Keeper \<Rightarrow> Context \<Rightarrow> (bytes \<times> bytes) list \<Rightarrow> KVStore \<Rightarrow> panic + KVStore" where
  "DeleteExpiredClaims_loop k ctx [] store = Inr store"
| "DeleteExpiredClaims_loop k ctx ((key, val) # it) store =
     (case UnmarshalClaim (cdc k) val of
        None \<Rightarrow> Inl CodecPanic
      | Some msg \<Rightarrow>
          (let sessionContext =
                 WithBlockHeight ctx (SessionBlockHeight (MsgClaim.SessionHeader msg))
           in case int64_quo (BlockHeight ctx - SessionBlockHeight (MsgClaim.SessionHeader msg))
                     (SessionFrequency k sessionContext) of
                Inl p \<Rightarrow> Inl p
              | Inr q \<Rightarrow>
                  if sint (ClaimExpiration k sessionContext) \<le> sint q
                  then DeleteExpiredClaims_loop k ctx it (store_Delete store key)
                  else DeleteExpiredClaims_loop k ctx it store))"

definition DeleteExpiredClaims :: "Pc \<Rightarrow> Keeper \<Rightarrow> Context \<Rightarrow> KVStore \<Rightarrow> panic + KVStore" where
  "DeleteExpiredClaims pc k ctx store =
     DeleteExpiredClaims_loop k ctx (KVStorePrefixIterator store (ClaimKey pc)) store"

definition BeginBlocker :: "Pc \<Rightarrow> Keeper \<Rightarrow> Context \<Rightarrow> KVStore \<Rightarrow> panic + KVStore" where
  "BeginBlocker pc k ctx store = DeleteExpiredClaims pc k ctx store"

subsection \<open>SendProofTx\<close>

text \<open>The collaborators of the local automation: the keybase, the node client (its
  genesis document and its account retriever) and the transaction sender
  \<^verbatim>\<open>claimTx\<close>. Each answer is a parameter; \<open>Inl\<close> and \<open>Some\<close> carry a Go error.\<close>

record KeyPair =
  PublicKey :: bytes
  GetAddress :: Address

record Keybase =
  GetCoinbase :: "string + KeyPair"

record Account =
  GetAccountNumber :: "64 word"
  GetSequence :: "64 word"

record Client =
  Genesis :: "string + string"
  EnsureExists :: "Address \<Rightarrow> string option"
  GetAccount :: "Address \<Rightarrow> string + Account"

record CLIContext =
  FromAddr :: Address
  Passphrase :: string
  BroadcastMode :: string

record TxBuilder =
  AccountNumber :: "64 word"
  Sequence :: "64 word"
  ChainID :: string
  Memo :: string
  Fees :: "(string \<times> int) list"

definition newTxBuilderAndCliCtx ::
    "Context \<Rightarrow> Client \<Rightarrow> Keybase \<Rightarrow> Keeper \<Rightarrow> panic + (TxBuilder \<times> CLIContext)" where
  "newTxBuilderAndCliCtx ctx n keybase k =
     (case GetCoinbase keybase of
        Inl err \<Rightarrow> Inl (PanicErr err)
      | Inr kp \<Rightarrow>
          (case Genesis n of
             Inl err \<Rightarrow> Inl (PanicErr err)
           | Inr genDocChainID \<Rightarrow>
               (let pubKey = PublicKey kp;
                    fromAddr = pubKey;
                    cliCtx = \<lparr>FromAddr = fromAddr, Passphrase = coinbasePassphrase k,
                              BroadcastMode = ''sync''\<rparr>
                in case EnsureExists n fromAddr of
                     Some err \<Rightarrow> Inl (PanicErr err)
                   | None \<Rightarrow>
                       (case GetAccount n fromAddr of
                          Inl err \<Rightarrow> Inl (PanicErr err)
                        | Inr account \<Rightarrow>
                            Inr (\<lparr>AccountNumber = GetAccountNumber account,
                                  Sequence = GetSequence account,
                                  ChainID = genDocChainID, Memo = [],
                                  Fees = [(StakeDenom k ctx, 10)]\<rparr>, cliCtx)))))"

text \<open>
  \<^verbatim>\<open>
  addr := sdk.Address(kp.GetAddress())
  proofs := k.GetMatureClaims(ctx, addr)
  for _, proof := range proofs {
      if _, found := k.GetInvoice(ctx, addr, proof.SessionHeader); found {
          pc.GetAllInvoices().DeleteInvoice(proof.SessionHeader)
          k.DeleteClaim(ctx, addr, proof.SessionHeader)
          continue
      }
      txBuilder, cliCtx := newTxBuilderAndCliCtx(ctx, n, keybase, k)
      inv := pc.Invoice{SessionHeader: proof.SessionHeader, TotalRelays: proof.TotalRelays,
          Proofs: pc.GetAllInvoices().GetProofs(proof.SessionHeader)}
      reqProof := int(k.GetPseudorandomIndex(ctx, proof.TotalRelays, proof.SessionHeader))
      branch, cousinIndex := inv.GenerateMerkleProof(reqProof)
      leaf := pc.GetAllInvoices().GetProof(proof.SessionHeader, reqProof)
      cousin := pc.GetAllInvoices().GetProof(proof.SessionHeader, cousinIndex)
      _, err := claimTx(cliCtx, txBuilder, branch, leaf, cousin)
      if err != nil { panic(err) }
  }
  \<close>
  What one pass leaves is the store, the local cache, and the calls of \<^verbatim>\<open>claimTx\<close> that
  returned without error, each with the claim whose iteration made it.\<close>

record ProofTxCall =
  forClaim :: MsgClaim
  branches :: MerkleProofs
  leafNode :: RelayProof
  cousin :: RelayProof

record World =
  kv :: KVStore
  cache :: Invoices
  sent :: "ProofTxCall list"

fun SendProofTx_loop ::
    "Pc \<Rightarrow> Keeper \<Rightarrow> Context \<Rightarrow> Client \<Rightarrow> Keybase
       \<Rightarrow> (CLIContext \<Rightarrow> TxBuilder \<Rightarrow> MerkleProofs \<Rightarrow> RelayProof \<Rightarrow> RelayProof \<Rightarrow> string option)
       \<Rightarrow> Address \<Rightarrow> MsgClaim list \<Rightarrow> World \<Rightarrow> panic + World" where
  "SendProofTx_loop pc k ctx n keybase claimTx addr [] w = Inr w"
| "SendProofTx_loop pc k ctx n keybase claimTx addr (proof # proofs) w =
     (case GetInvoice pc k ctx (kv w) addr (MsgClaim.SessionHeader proof) of
        Inl p \<Rightarrow> Inl p
      | Inr (invoice, found) \<Rightarrow>
          if found then
            SendProofTx_loop pc k ctx n keybase claimTx addr proofs
              (w\<lparr>cache := DeleteInvoice (cache w) (MsgClaim.SessionHeader proof),
                 kv := DeleteClaim pc k ctx (kv w) addr (MsgClaim.SessionHeader proof)\<rparr>)
          else
            (case newTxBuilderAndCliCtx ctx n keybase k of
               Inl p \<Rightarrow> Inl p
             | Inr (txBuilder, cliCtx) \<Rightarrow>
                 (let inv' = \<lparr>Invoice.SessionHeader = MsgClaim.SessionHeader proof,
                             Invoice.TotalRelays = MsgClaim.TotalRelays proof,
                             Proofs = GetProofs pc (cache w) (MsgClaim.SessionHeader proof)\<rparr>
                  in case GetPseudorandomIndex pc k ctx (MsgClaim.TotalRelays proof)
                            (MsgClaim.SessionHeader proof) of
                       Inl p \<Rightarrow> Inl p
                     | Inr reqProof \<Rightarrow>
                         (let (branch, cousinIndex) = GenerateMerkleProof pc inv' reqProof;
                              leaf = GetProof pc (cache w) (MsgClaim.SessionHeader proof) reqProof;
                              cous = GetProof pc (cache w) (MsgClaim.SessionHeader proof) cousinIndex
                          in case claimTx cliCtx txBuilder branch leaf cous of
                               Some err \<Rightarrow> Inl (PanicErr err)
                             | None \<Rightarrow>
                                 SendProofTx_loop pc k ctx n keybase claimTx addr proofs
                                   (w\<lparr>sent := sent w @
                                        [\<lparr>forClaim = proof, branches = branch,
                                          leafNode = leaf, cousin = cous\<rparr>]\<rparr>)))))"

definition SendProofTx ::
    "Pc \<Rightarrow> Keeper \<Rightarrow> Context \<Rightarrow> Client \<Rightarrow> Keybase
       \<Rightarrow> (CLIContext \<Rightarrow> TxBuilder \<Rightarrow> MerkleProofs \<Rightarrow> RelayProof \<Rightarrow> RelayProof \<Rightarrow> string option)
       \<Rightarrow> KVStore \<Rightarrow> Invoices \<Rightarrow> panic + World" where
  "SendProofTx pc k ctx n keybase claimTx store M =
     (case GetCoinbase keybase of
        Inl err \<Rightarrow> Inl (PanicErr err)
      | Inr kp \<Rightarrow>
          (let addr = GetAddress kp in
           case GetMatureClaims pc k ctx store addr of
             Inl p \<Rightarrow> Inl p
           | Inr proofs \<Rightarrow>
               SendProofTx_loop pc k ctx n keybase claimTx addr proofs
                 \<lparr>kv = store, cache = M, sent = []\<rparr>))"

subsection \<open>The specification's wording of the checks and of the sweep\<close>

text \<open>The five checks of the proof verifier in the order the specification lists them,
  each \<open>None\<close> when it passes and its error otherwise; the depth check is stated with the
  exact \<open>ceillog2\<close> of the claimed number of relays, \<open>\<lceil>log\<^sub>2 n\<rceil>\<close> over the reals.
  \<open>first_error\<close> is the error of the first check that fails.\<close>

fun first_error :: "Error option list \<Rightarrow> Error option" where
  "first_error [] = None"
| "first_error (None # cs) = first_error cs"
| "first_error (Some e # cs) = Some e"

definition spec_checks ::
    "Pc \<Rightarrow> MsgClaim \<Rightarrow> MsgProof \<Rightarrow> int64 \<Rightarrow> Error option list" where
  "spec_checks pc claimMsg proofMsg reqProof =
     [if reqProof = Index (fst (MerkleProofs proofMsg)) then None
      else Some (InvalidProofsError (ModuleName pc)),
      if length (HashSums (fst (MerkleProofs proofMsg)))
           = ceillog2 (nat (sint (MsgClaim.TotalRelays claimMsg)))
      then None else Some (InvalidProofsError (ModuleName pc)),
      if MerkleProofs_Validate pc (MerkleProofs proofMsg) (MerkleRoot claimMsg)
           (Leaf proofMsg) (Cousin proofMsg) (MsgClaim.TotalRelays claimMsg)
      then None else Some (InvalidMerkleVerifyError (ModuleName pc)),
      Token_Validate pc (Token (Leaf proofMsg)),
      SignatureVerification pc (ClientPublicKey (Token (Leaf proofMsg)))
        (RelayProof_HashString pc (Leaf proofMsg)) (Signature (Leaf proofMsg))]"

text \<open>The depth that the code computes in \<^verbatim>\<open>float64\<close> is exact at \<open>n\<close> when it is
  \<open>ceillog2 n\<close>.\<close>

definition depth_exact :: "Pc \<Rightarrow> int64 \<Rightarrow> bool" where
  "depth_exact pc n \<longleftrightarrow>
     int_of_float64 (int_of_unrepresentable pc) (math_Ceil (math_Log2 (float64_of_int (sint n))))
       = int (ceillog2 (nat (sint n)))"

text \<open>The expiration rule as the specification words it: the floor of
  \<open>(currentHeight - sessionBlockHeight) / sessionFrequency\<close> is at least the expiration, over
  the integers (\<open>div\<close> rounds down). The parameters are read where the code reads them,
  in the context of the session's height.\<close>

definition expired_spec :: "Keeper \<Rightarrow> Context \<Rightarrow> MsgClaim \<Rightarrow> bool" where
  "expired_spec k ctx msg =
     (let sessionBlockHeight = SessionBlockHeight (MsgClaim.SessionHeader msg);
          sessionContext = WithBlockHeight ctx sessionBlockHeight
      in sint (ClaimExpiration k sessionContext)
           \<le> (sint (BlockHeight ctx) - sint sessionBlockHeight)
                 div sint (SessionFrequency k sessionContext))"

text \<open>An entry of the store is swept when it is a claim (its key has the claim prefix) and
  the claim it holds is expired by the rule above.\<close>

definition swept :: "Pc \<Rightarrow> Keeper \<Rightarrow> Context \<Rightarrow> bytes \<Rightarrow> bytes \<Rightarrow> bool" where
  "swept pc k ctx key val =
     (prefix (ClaimKey pc) key \<and>
      (case UnmarshalClaim (cdc k) val of None \<Rightarrow> False | Some msg \<Rightarrow> expired_spec k ctx msg))"

text \<open>The heights and parameters on which Go's quotient and the floor agree: a positive
  session frequency, a difference of heights that fits \<^verbatim>\<open>int64\<close>, and a session that began
  no later than the current height or else a positive expiration.\<close>

definition heights_ok :: "Keeper \<Rightarrow> Context \<Rightarrow> MsgClaim \<Rightarrow> bool" where
  "heights_ok k ctx msg =
     (let sessionBlockHeight = SessionBlockHeight (MsgClaim.SessionHeader msg);
          sessionContext = WithBlockHeight ctx sessionBlockHeight
      in 0 < sint (SessionFrequency k sessionContext)
         \<and> - (2 ^ 63) \<le> sint (BlockHeight ctx) - sint sessionBlockHeight
         \<and> sint (BlockHeight ctx) - sint sessionBlockHeight < 2 ^ 63
         \<and> (sint sessionBlockHeight \<le> sint (BlockHeight ctx)
              \<or> 0 < sint (ClaimExpiration k sessionContext)))"

text \<open>What the loop of \<^verbatim>\<open>DeleteExpiredClaims\<close> does with one entry of the iterator: it
  goes on when the value decodes and the session frequency is not zero, and it deletes
  the key when Go's quotient reaches the expiration.\<close>

definition entry_ok :: "Keeper \<Rightarrow> Context \<Rightarrow> bytes \<Rightarrow> bool" where
  "entry_ok k ctx val =
     (case UnmarshalClaim (cdc k) val of
        None \<Rightarrow> False
      | Some msg \<Rightarrow>
          SessionFrequency k
            (WithBlockHeight ctx (SessionBlockHeight (MsgClaim.SessionHeader msg))) \<noteq> 0)"

definition entry_expired :: "Keeper \<Rightarrow> Context \<Rightarrow> bytes \<Rightarrow> bool" where
  "entry_expired k ctx val =
     (case UnmarshalClaim (cdc k) val of
        None \<Rightarrow> False
      | Some msg \<Rightarrow>
          (let sessionContext =
                 WithBlockHeight ctx (SessionBlockHeight (MsgClaim.SessionHeader msg))
           in sint (ClaimExpiration k sessionContext)
                \<le> sint (word_of_int
                      (tdiv (sint (BlockHeight ctx - SessionBlockHeight (MsgClaim.SessionHeader msg)))
                         (sint (SessionFrequency k sessionContext))) :: int64)))"

definition expired_keys :: "Keeper \<Rightarrow> Context \<Rightarrow> (bytes \<times> bytes) list \<Rightarrow> bytes set" where
  "expired_keys k ctx it = {key. \<exists>val. (key, val) \<in> set it \<and> entry_expired k ctx val}"

text \<open>The key builders are declared in package types; what the proof pass needs of them is
  that no claim key is an invoice key (the two families have different prefixes).\<close>

definition keys_disjoint :: "Pc \<Rightarrow> Context \<Rightarrow> bool" where
  "keys_disjoint pc ctx =
     (\<forall>a h a' h'. KeyForClaim pc ctx a h \<noteq> KeyForInvoice pc ctx a' h')"

subsection \<open>A concrete keeper, for evaluating the functions\<close>

text \<open>\<^verbatim>\<open>pc.Hash\<close> is SHA3-256. The only value this file hashes is the two bytes \<^verbatim>\<open>{}\<close>, whose
  SHA3-256 digest is \<^verbatim>\<open>840eb7aa2a9935de63366bacbe9d97e978a859e93dc792a0334de60ed52f8e99\<close>.\<close>

definition sha3_256_braces :: bytes where
  "sha3_256_braces =
     [0x84, 0x0e, 0xb7, 0xaa, 0x2a, 0x99, 0x35, 0xde, 0x63, 0x36, 0x6b, 0xac, 0xbe, 0x9d, 0x97, 0xe9,
      0x78, 0xa8, 0x59, 0xe9, 0x3d, 0xc7, 0x92, 0xa0, 0x33, 0x4d, 0xe6, 0x0e, 0xd5, 0x2f, 0x8e, 0x99]"

definition ex_Hash :: "bytes \<Rightarrow> bytes" where
  "ex_Hash b = (if b = [0x7B, 0x7D] then sha3_256_braces else [])"

definition ex_header :: "int64 \<Rightarrow> SessionHeader" where
  "ex_header h = \<lparr>ApplicationPubKey = ''app'', Chain = ''0001'', SessionBlockHeight = h\<rparr>"

definition ex_claim :: "int64 \<Rightarrow> MsgClaim" where
  "ex_claim h =
     \<lparr>MsgClaim.SessionHeader = ex_header h, MerkleRoot = [0x01],
      MsgClaim.TotalRelays = 5, FromAddress = [0xAA]\<rparr>"

definition ex_invoice :: "int64 \<Rightarrow> StoredInvoice" where
  "ex_invoice h =
     \<lparr>ServicerAddress = ''aa'', StoredInvoice.SessionHeader = ex_header h,
      StoredInvoice.TotalRelays = 5\<rparr>"

text \<open>A codec for the examples: a record is stored as the one byte of its session block
  height (heights below 256).\<close>

definition ex_codec :: Codec where
  "ex_codec =
     \<lparr>MarshalClaim = (\<lambda>m. [ucast (SessionBlockHeight (MsgClaim.SessionHeader m))]),
      UnmarshalClaim = (\<lambda>bz. case bz of [b] \<Rightarrow> Some (ex_claim (ucast b)) | _ \<Rightarrow> None),
      MarshalInvoice = (\<lambda>i. [ucast (SessionBlockHeight (StoredInvoice.SessionHeader i))]),
      UnmarshalInvoice = (\<lambda>bz. case bz of [b] \<Rightarrow> Some (ex_invoice (ucast b)) | _ \<Rightarrow> None)\<rparr>"

text \<open>Waiting period 2 sessions, 10 blocks per session, expiration after 5 sessions: the
  figures of the specification's scenarios.\<close>

definition ex_k :: Keeper where
  "ex_k =
     \<lparr>cdc = ex_codec, coinbasePassphrase = ''secret'',
      ProofWaitingPeriod = (\<lambda>ctx. 2), SessionFrequency = (\<lambda>ctx. 10),
      ClaimExpiration = (\<lambda>ctx. 5), StakeDenom = (\<lambda>ctx. ''upokt'')\<rparr>"

text \<open>The collaborators of the examples: every check of package types passes, the keys are
  a prefix byte, the address and the session height, and \<^verbatim>\<open>int(x)\<close> of an unrepresentable
  \<^verbatim>\<open>float64\<close> is the smallest \<^verbatim>\<open>int\<close>, as on amd64.\<close>

definition ex_pc :: Pc where
  "ex_pc =
     \<lparr>ModuleName = ''pocketcore'', Hash = ex_Hash,
      HashString = (\<lambda>h. Chain h), RelayProof_HashString = (\<lambda>p. Signature p),
      MerkleProofs_Validate = (\<lambda>mps root leaf cous n. True),
      Token_Validate = (\<lambda>t. None), SignatureVerification = (\<lambda>pk msg sig. None),
      int_of_unrepresentable = (\<lambda>x. - (2 ^ 63)),
      ClaimKey = [0x01], InvoiceKey = [0x02],
      KeyForClaim = (\<lambda>ctx addr h. [0x01] @ addr @ [ucast (SessionBlockHeight h)]),
      KeyForClaims = (\<lambda>addr. [0x01] @ addr),
      KeyForInvoice = (\<lambda>ctx addr h. [0x02] @ addr @ [ucast (SessionBlockHeight h)]),
      GenerateMerkleProof = (\<lambda>i n. ((MerkleProof_zero, MerkleProof_zero), 0)),
      GetProofs = (\<lambda>M h. case M h of None \<Rightarrow> [] | Some i \<Rightarrow> Proofs i),
      GetProof = (\<lambda>M h n. RelayProof_zero)\<rparr>"

definition ex_ctx :: "int64 \<Rightarrow> bytes \<Rightarrow> Context" where
  "ex_ctx h lastHash = \<lparr>BlockHeader = \<lparr>Height = h, LastBlockId_Hash = lastHash\<rparr>\<rparr>"

definition ex_k_expire0 :: Keeper where
  "ex_k_expire0 = ex_k\<lparr>ClaimExpiration := (\<lambda>ctx. 0)\<rparr>"

text \<open>A proof message whose Merkle proofs carry \<open>depth\<close> hash sums; the first reveals leaf 0.\<close>

definition ex_proof :: "nat \<Rightarrow> MsgProof" where
  "ex_proof depth =
     \<lparr>MerkleProofs = (\<lparr>Index = 0, HashSums = replicate depth [0x00]\<rparr>,
                      \<lparr>Index = 1, HashSums = replicate depth [0x00]\<rparr>),
      Leaf = RelayProof_zero, Cousin = RelayProof_zero\<rparr>"

text \<open>A claim of \<open>n\<close> relays, and a proof message for claims of \<open>2\<^sup>4\<^sup>9 + 1\<close> and of
  \<open>2\<^sup>5\<^sup>0 + 1\<close> relays: the index required of both is \<^verbatim>\<open>0x840eb7aa2\<close>, and the Merkle proofs
  carry \<open>depth\<close> hash sums.\<close>

definition ex_relays_claim :: "int64 \<Rightarrow> MsgClaim" where
  "ex_relays_claim n = (ex_claim 100)\<lparr>MsgClaim.TotalRelays := n\<rparr>"

definition ex_relays_proof :: "nat \<Rightarrow> MsgProof" where
  "ex_relays_proof depth =
     \<lparr>MerkleProofs = (\<lparr>Index = 35448912546, HashSums = replicate depth [0x00]\<rparr>,
                      \<lparr>Index = 35448912547, HashSums = replicate depth [0x00]\<rparr>),
      Leaf = RelayProof_zero, Cousin = RelayProof_zero\<rparr>"

text \<open>A store holding the claims of the sessions that began at heights 100 and 120, and the
  invoice of the session of height 100; and the same store after the sweep at height 150.\<close>

definition ex_store :: KVStore where
  "ex_store = [([0x01, 0xAA, 100], [100]), ([0x01, 0xAA, 120], [120]), ([0x02, 0xAA, 100], [100])]"

definition ex_swept_store :: KVStore where
  "ex_swept_store = [([0x01, 0xAA, 120], [120]), ([0x02, 0xAA, 100], [100])]"

definition ex_keybase :: Keybase where
  "ex_keybase = \<lparr>GetCoinbase = Inr \<lparr>PublicKey = [0xAA], GetAddress = [0xAA]\<rparr>\<rparr>"

definition ex_client :: Client where
  "ex_client =
     \<lparr>Genesis = Inr ''testnet'', EnsureExists = (\<lambda>a. None),
      GetAccount = (\<lambda>a. Inr \<lparr>GetAccountNumber = 1, GetSequence = 7\<rparr>)\<rparr>"

definition ex_claimTx ::
    "CLIContext \<Rightarrow> TxBuilder \<Rightarrow> MerkleProofs \<Rightarrow> RelayProof \<Rightarrow> RelayProof \<Rightarrow> string option" where
  "ex_claimTx cliCtx txBuilder bs leaf cous = None"

definition ex_cache :: Invoices where
  "ex_cache h =
     (if h = ex_header 100 \<or> h = ex_header 120
      then Some \<lparr>Invoice.SessionHeader = h, Invoice.TotalRelays = 5, Proofs = []\<rparr>
      else None)"

section \<open>Properties\<close>

subsection \<open>Hexadecimal digits: encoding and parsing\<close>

lemma hexDigitVal_hextable: "n < 16 \<Longrightarrow> hexDigitVal (hextable ! n) = Some n"
proof -
  assume "n < 16"
  then have "n \<in> {0,1,2,3,4,5,6,7,8,9,10,11,12,13,14,15}" by simp arith
  then show ?thesis
    by (auto simp: hextable_def hexDigitVal_def)
qed

lemma hexDigitVal_lt16: "hexDigitVal c = Some d \<Longrightarrow> d < 16"
  by (auto simp: hexDigitVal_def Let_def split: if_splits)

lemma hexDigitVal_sign: "hexDigitVal c = Some d \<Longrightarrow> c \<noteq> CHR ''+'' \<and> c \<noteq> CHR ''-''"
  by (auto simp: hexDigitVal_def Let_def split: if_splits)

lemma hex_EncodeToString_digits:
  "c \<in> set (hex_EncodeToString bs) \<Longrightarrow> \<exists>d. hexDigitVal c = Some d"
proof -
  have lt: "unat v div 16 < 16" "unat v mod 16 < 16" for v :: byte
    using unsigned_less [of v, where 'a = nat] by auto
  assume "c \<in> set (hex_EncodeToString bs)"
  then obtain v :: byte where "c = hextable ! (unat v div 16) \<or> c = hextable ! (unat v mod 16)"
    by (auto simp: hex_EncodeToString_def)
  then show ?thesis using lt [of v] hexDigitVal_hextable by metis
qed

lemma length_hex_EncodeToString: "length (hex_EncodeToString bs) = 2 * length bs"
  by (induction bs) (simp_all add: hex_EncodeToString_def)

lemma parseUintHex_append:
  "parseUintHex acc (s @ t) =
     (case parseUintHex acc s of None \<Rightarrow> None | Some v \<Rightarrow> parseUintHex v t)"
  by (induction s arbitrary: acc) (simp_all split: option.splits)

lemma parseUintHex_mono: "parseUintHex acc s = Some v \<Longrightarrow> acc \<le> v"
proof (induction s arbitrary: acc)
  case Nil then show ?case by simp
next
  case (Cons c cs)
  then obtain d where d: "hexDigitVal c = Some d" and r: "parseUintHex (16 * acc + d) cs = Some v"
    by (auto split: option.splits)
  from Cons.IH [OF r] show ?case by simp
qed

lemma parseUintHex_total:
  "\<forall>c\<in>set s. \<exists>d. hexDigitVal c = Some d \<Longrightarrow>
     \<exists>v. parseUintHex acc s = Some v \<and> v < (acc + 1) * 16 ^ length s"
proof (induction s arbitrary: acc)
  case Nil then show ?case by simp
next
  case (Cons c cs)
  then obtain d where d: "hexDigitVal c = Some d" by auto
  then have d16: "d < 16" by (rule hexDigitVal_lt16)
  from Cons obtain v where v: "parseUintHex (16 * acc + d) cs = Some v"
      and b: "v < (16 * acc + d + 1) * 16 ^ length cs" by fastforce
  have "(16 * acc + d + 1) * 16 ^ length cs \<le> (16 * acc + 16) * 16 ^ length cs"
    using d16 by (intro mult_right_mono) auto
  also have "\<dots> = (acc + 1) * 16 ^ length (c # cs)" by (simp add: algebra_simps)
  finally show ?case using d v b by simp
qed

lemma sint_word_of_nat: "v < 2 ^ 63 \<Longrightarrow> sint (word_of_nat v :: int64) = int v"
proof -
  assume v: "v < 2 ^ 63"
  have "sint (word_of_nat v :: int64) = signed_take_bit 63 (int v)"
    by (simp add: signed_of_nat)
  also have "\<dots> = int v"
  proof (rule signed_take_bit_int_eq_self)
    show "- (2 ^ 63) \<le> int v" by simp
    from v have "int v < int (2 ^ 63)" by (simp only: of_nat_less_iff)
    then show "int v < 2 ^ 63" by simp
  qed
  finally show ?thesis .
qed

lemma strconv_ParseInt_hex:
  assumes "s \<noteq> []" and "\<forall>c\<in>set s. \<exists>d. hexDigitVal c = Some d" and "length s \<le> 15"
  shows "\<exists>v. parseUintHex 0 s = Some v \<and> v < 16 ^ length s \<and> v < 2 ^ 60
           \<and> strconv_ParseInt s = Some (word_of_nat v)"
proof -
  from parseUintHex_total [OF assms(2), of 0]
  obtain v where v: "parseUintHex 0 s = Some v" and b: "v < 16 ^ length s" by auto
  have "(16::nat) ^ length s \<le> 16 ^ 15" using assms(3) by (intro power_increasing) auto
  with b have b60: "v < 2 ^ 60" by simp
  from assms(1) obtain c cs where s: "s = c # cs" by (cases s) auto
  with assms(2) obtain d where "hexDigitVal c = Some d" by auto
  then have ns: "c \<noteq> CHR ''+''" "c \<noteq> CHR ''-''" using hexDigitVal_sign by blast+
  have "strconv_ParseInt s = Some (word_of_nat v)"
    using v b60 ns unfolding s strconv_ParseInt_def by (simp add: Let_def)
  with v b b60 show ?thesis by blast
qed

lemma take_take_prefix: "a \<le> b \<Longrightarrow> take b h = take a h @ drop a (take b h)"
  by (metis append_take_drop_id min.absorb1 take_take)

lemma parseUintHex_take_le:
  assumes "a \<le> b" and "parseUintHex 0 (take a h) = Some w" and "parseUintHex 0 (take b h) = Some v"
  shows "w \<le> v"
proof -
  have "parseUintHex 0 (take b h) = parseUintHex w (drop a (take b h))"
    using take_take_prefix [OF assms(1), of h] parseUintHex_append [of 0 "take a h" "drop a (take b h)"]
      assms(2) by simp
  with assms(3) show ?thesis using parseUintHex_mono by metis
qed

lemma GetPseudorandomIndex_loop_returns:
  assumes hex: "\<forall>c\<in>set h. \<exists>d. hexDigitVal c = Some d" and len: "length h = 15"
  shows "n \<le> 15 \<Longrightarrow>
     \<exists>idx. GetPseudorandomIndex_loop h t n = Inr idx \<and> 0 \<le> sint idx
        \<and> (sint idx \<le> sint t \<or> idx = 0)"
proof (induction n)
  case 0
  then show ?case by simp
next
  case (Suc n)
  let ?i = "Suc n"
  have hexT: "\<forall>c\<in>set (take m h). \<exists>d. hexDigitVal c = Some d" for m
    using hex by (meson in_set_takeD)
  have lenT: "length (take m h) \<le> 15" for m
    using len by simp
  have ne: "take ?i h \<noteq> []" using len by auto
  from strconv_ParseInt_hex [OF ne hexT lenT]
  obtain v where v: "parseUintHex 0 (take ?i h) = Some v" "v < 2 ^ 60"
      "strconv_ParseInt (take ?i h) = Some (word_of_nat v)" by blast
  have sv: "sint (word_of_nat v :: int64) = int v"
    using v(2) by (intro sint_word_of_nat) simp
  show ?case
  proof (cases "sint (word_of_nat v :: int64) \<le> sint t")
    case False
    have "GetPseudorandomIndex_loop h t ?i = GetPseudorandomIndex_loop h t n"
      by (simp only: GetPseudorandomIndex_loop.simps Let_def v(3) False option.case if_False)
    with Suc show ?thesis by simp
  next
    case True
    have h0: "[h ! 0] = take 1 h" using len by (cases h) auto
    have "take 1 h \<noteq> []" using len by auto
    from strconv_ParseInt_hex [OF this hexT lenT]
    obtain d where d: "parseUintHex 0 (take 1 h) = Some d" "d < 16 ^ length (take 1 h)"
        "strconv_ParseInt (take 1 h) = Some (word_of_nat d)" by blast
    have first: "strconv_ParseInt [h ! 0] = Some (word_of_nat d)"
      using d(3) h0 by simp
    have d16: "d < 16" using d(2) len by simp
    have sd: "sint (word_of_nat d :: int64) = int d"
      using d16 by (intro sint_word_of_nat) simp
    have si: "sint (word_of_nat ?i :: int64) = int ?i"
      using Suc.prems by (intro sint_word_of_nat) simp
    have inz: "(word_of_nat ?i :: int64) \<noteq> 0"
    proof
      assume "(word_of_nat ?i :: int64) = 0"
      then have "sint (word_of_nat ?i :: int64) = 0" by (simp only: sint_0)
      with si show False by simp
    qed
    define m where "m = d mod ?i"
    have tm: "tmod (int d) (int ?i) = int m"
      unfolding tmod_def m_def by (simp add: zmod_int sgn_if del: of_nat_Suc)
    have rem: "int64_rem (word_of_nat d) (word_of_nat ?i) = Inr (word_of_nat m)"
      unfolding int64_rem_def sd si tm using inz by (simp del: of_nat_Suc)
    have m_lt: "m < ?i" unfolding m_def by simp
    have selw: "(word_of_nat m :: int64) + 1 = word_of_nat (Suc m)" by simp
    have ssel: "sint ((word_of_nat m :: int64) + 1) = int (Suc m)"
      unfolding selw using m_lt Suc.prems by (intro sint_word_of_nat) simp
    have nsel: "nat (sint ((word_of_nat m :: int64) + 1)) = Suc m"
      unfolding ssel by (rule nat_int)
    have sel_le: "Suc m \<le> ?i" using m_lt by simp
    have "take (Suc m) h \<noteq> []" using len by auto
    from strconv_ParseInt_hex [OF this hexT lenT]
    obtain w where w: "parseUintHex 0 (take (Suc m) h) = Some w" "w < 2 ^ 60"
        "strconv_ParseInt (take (Suc m) h) = Some (word_of_nat w)" by blast
    have last: "strconv_ParseInt (take (nat (sint ((word_of_nat m :: int64) + 1))) h)
                  = Some (word_of_nat w)"
      unfolding nsel by (rule w(3))
    have sw: "sint (word_of_nat w :: int64) = int w"
      using w(2) by (intro sint_word_of_nat) simp
    have wv: "w \<le> v" using parseUintHex_take_le [OF sel_le w(1) v(1)] .
    have bounds: "(sint ((word_of_nat m :: int64) + 1) < 0
                    \<or> int (length h) < sint ((word_of_nat m :: int64) + 1)) = False"
      unfolding ssel using sel_le Suc.prems len by simp
    have "GetPseudorandomIndex_loop h t ?i = Inr (word_of_nat w)"
      by (simp only: GetPseudorandomIndex_loop.simps Let_def v(3) True first rem bounds last
            option.case sum.case if_True if_False)
    moreover have "0 \<le> sint (word_of_nat w :: int64)" unfolding sw by simp
    moreover have "sint (word_of_nat w :: int64) \<le> sint t" using sw sv wv True by simp
    ultimately show ?thesis by blast
  qed
qed

subsection \<open>The pseudorandom index\<close>

lemma GetPseudorandomIndex_loop_unfold:
  "0 < i \<Longrightarrow> GetPseudorandomIndex_loop h t i =
     (case strconv_ParseInt (take i h) of
        None \<Rightarrow> Inl (PanicErr ''strconv.ParseInt'')
      | Some maxValue \<Rightarrow>
          if sint maxValue \<le> sint t then
            (case strconv_ParseInt [h ! 0] of
               None \<Rightarrow> Inl (PanicErr ''strconv.ParseInt'')
             | Some firstCharacter \<Rightarrow>
                 (case int64_rem firstCharacter (word_of_nat i) of
                    Inl p \<Rightarrow> Inl p
                  | Inr r \<Rightarrow>
                      (let selection = r + 1 in
                       if sint selection < 0 \<or> int (length h) < sint selection
                       then Inl SliceBoundsOutOfRange
                       else (case strconv_ParseInt (take (nat (sint selection)) h) of
                               None \<Rightarrow> Inl (PanicErr ''strconv.ParseInt'')
                             | Some index \<Rightarrow> Inr index))))
          else GetPseudorandomIndex_loop h t (i - 1))"
proof -
  assume "0 < i"
  then obtain n where i: "i = Suc n" by (cases i) auto
  show ?thesis unfolding i by (simp add: Let_def split: option.split sum.split)
qed

lemma sha3_digest_prefix:
  "hex_EncodeToString (ex_Hash [0x7B, 0x7D]) = ''840eb7aa2a9935de63366bacbe9d97e978a859e93dc792a0334de60ed52f8e99''"
  by (simp add: ex_Hash_def hex_EncodeToString_def sha3_256_braces_def hextable_def)

lemma GetPseudorandomIndex_digest:
  "GetPseudorandomIndex pc k ctx totalRelays hdr =
     (if length (hex_EncodeToString (Hash pc [0x7B, 0x7D])) < 15 then Inl SliceBoundsOutOfRange
      else GetPseudorandomIndex_loop (take 15 (hex_EncodeToString (Hash pc [0x7B, 0x7D])))
             totalRelays 15)"
  by (simp add: GetPseudorandomIndex_def json_Marshal_def Let_def)

text \<open>\<^bold>\<open>Claim C1.\<close>
  The specification expects \<open>0 \<le> index < totalRelays\<close> for every \<open>totalRelays \<ge> 1\<close>.
  The loop takes a prefix when \<^verbatim>\<open>totalRelays >= maxValue\<close>, while the comment above that test reads
  ``if the total relays is greater than the resulting integer''; with \<open>\<ge>\<close> the index can be
  \<open>totalRelays\<close> itself. The seed is always the two bytes \<^verbatim>\<open>{}\<close> and its SHA3-256 digest begins
  with the digit 8: at \<open>i = 1\<close> the prefix is 8, \<open>8 \<ge> 8\<close> holds, the selection is
  \<open>8 % 1 + 1 = 1\<close>, and a claim of 8 relays is asked to reveal leaf 8 of its leaves 0 to 7,
  whatever the context and the session header.
\<close>

theorem GetPseudorandomIndex_eight_relays_out_of_range: "GetPseudorandomIndex ex_pc k ctx 8 hdr = Inr 8"
  unfolding GetPseudorandomIndex_digest
  by (simp add: ex_pc_def sha3_digest_prefix GetPseudorandomIndex_loop_unfold
        strconv_ParseInt_def hexDigitVal_def int64_rem_def tmod_def)

lemma ex_index_5: "GetPseudorandomIndex ex_pc k ctx 5 hdr = Inr 0"
  unfolding GetPseudorandomIndex_digest
  by (simp add: ex_pc_def sha3_digest_prefix GetPseudorandomIndex_loop_unfold
        strconv_ParseInt_def hexDigitVal_def int64_rem_def tmod_def)

lemma ex_index_2113: "GetPseudorandomIndex ex_pc k ctx 2113 hdr = Inr 2112"
  unfolding GetPseudorandomIndex_digest
  by (simp add: ex_pc_def sha3_digest_prefix GetPseudorandomIndex_loop_unfold
        strconv_ParseInt_def hexDigitVal_def int64_rem_def tmod_def)

text \<open>\<^bold>\<open>Claim C2.\<close>
  Both fields of \<^verbatim>\<open>pseudorandomGenerator\<close> are unexported, so \<^verbatim>\<open>json.Marshal\<close> gives the bytes
  \<^verbatim>\<open>{}\<close> whatever it is given, and the index depends on \<open>totalRelays\<close> alone: two calls with the
  same \<open>totalRelays\<close> return the same result, whatever their session headers and their
  contexts (block hashes, heights) are, and even when the keepers' parameters differ.
\<close>

theorem GetPseudorandomIndex_ignores_header_and_block: "GetPseudorandomIndex pc k1 ctx1 totalRelays hdr1
           = GetPseudorandomIndex pc k2 ctx2 totalRelays hdr2 \<and> json_Marshal g = [0x7B, 0x7D]"
  by (simp add: GetPseudorandomIndex_digest json_Marshal_def)

theorem GetPseudorandomIndex_ignores_header_and_block_witness:
  "ex_header 100 \<noteq> ex_header 140
   \<and> LastBlockId_Hash (BlockHeader (ex_ctx 130 [0x01])) \<noteq> LastBlockId_Hash (BlockHeader (ex_ctx 170 [0x02]))
   \<and> GetPseudorandomIndex ex_pc ex_k (ex_ctx 130 [0x01]) 2113 (ex_header 100) = Inr 2112
   \<and> GetPseudorandomIndex ex_pc ex_k (ex_ctx 170 [0x02]) 2113 (ex_header 140) = Inr 2112"
  using GetPseudorandomIndex_ignores_header_and_block [of ex_pc ex_k "ex_ctx 130 [0x01]" 2113 "ex_header 100" ex_k "ex_ctx 170 [0x02]"
              "ex_header 140"]
        ex_index_2113 [of ex_k "ex_ctx 130 [0x01]" "ex_header 100"]
  by (simp add: ex_header_def ex_ctx_def)

text \<open>The function returns whenever the digest has at least 8 bytes (15 hexadecimal digits
  need them), and the index it returns is at most \<open>totalRelays\<close>, or 0.\<close>

lemma GetPseudorandomIndex_returns:
  assumes "8 \<le> length (Hash pc [0x7B, 0x7D])"
  shows "\<exists>idx. GetPseudorandomIndex pc k ctx t hdr = Inr idx \<and> 0 \<le> sint idx
           \<and> (sint idx \<le> sint t \<or> idx = 0)"
proof -
  let ?d = "hex_EncodeToString (Hash pc [0x7B, 0x7D])"
  have l: "\<not> length ?d < 15" using assms by (simp add: length_hex_EncodeToString)
  have hex: "\<forall>c\<in>set (take 15 ?d). \<exists>d. hexDigitVal c = Some d"
    using hex_EncodeToString_digits by (meson in_set_takeD)
  have len: "length (take 15 ?d) = 15" using l by simp
  from GetPseudorandomIndex_loop_returns [OF hex len, of 15 t]
  show ?thesis unfolding GetPseudorandomIndex_digest using l by simp
qed

text \<open>For every hash function whose digest of the seed has at least 8 bytes and every
  \<open>totalRelays \<ge> 0\<close>, \<^verbatim>\<open>GetPseudorandomIndex\<close> returns without panic, and its index satisfies
  \<open>0 \<le> index \<le> totalRelays\<close>: the prefix it returns is no longer than the prefix the loop
  accepted.\<close>

theorem GetPseudorandomIndex_at_most_totalRelays:
  assumes "8 \<le> length (Hash pc [0x7B, 0x7D])" and "0 \<le> sint totalRelays"
  shows "\<exists>index. GetPseudorandomIndex pc k ctx totalRelays hdr = Inr index
           \<and> 0 \<le> sint index \<and> sint index \<le> sint totalRelays"
proof -
  from GetPseudorandomIndex_returns [OF assms(1), of k ctx totalRelays hdr]
  obtain idx where "GetPseudorandomIndex pc k ctx totalRelays hdr = Inr idx"
      and "0 \<le> sint idx" and "sint idx \<le> sint totalRelays \<or> idx = 0"
    by blast
  with assms(2) show ?thesis by auto
qed

theorem GetPseudorandomIndex_at_most_totalRelays_witness:
  "\<exists>index. GetPseudorandomIndex ex_pc ex_k (ex_ctx 130 []) 2113 (ex_header 100) = Inr index
     \<and> 0 \<le> sint index \<and> sint index \<le> 2113"
  using GetPseudorandomIndex_at_most_totalRelays [of ex_pc 2113 ex_k "ex_ctx 130 []" "ex_header 100"]
  by (simp add: ex_pc_def ex_Hash_def sha3_256_braces_def)

lemma parseUintHex_lower: "parseUintHex acc s = Some v \<Longrightarrow> acc * 16 ^ length s \<le> v"
proof (induction s arbitrary: acc)
  case Nil
  then show ?case by simp
next
  case (Cons c cs)
  then obtain d where r: "parseUintHex (16 * acc + d) cs = Some v"
    by (auto split: option.splits)
  have "acc * 16 ^ length (c # cs) \<le> (16 * acc + d) * 16 ^ length cs"
    by (simp add: algebra_simps)
  also have "\<dots> \<le> v" using Cons.IH [OF r] .
  finally show ?case .
qed

lemma GetPseudorandomIndex_loop_first_digit:
  assumes hex: "\<forall>c\<in>set h. \<exists>d. hexDigitVal c = Some d" and len: "length h = 15"
      and d: "hexDigitVal (h ! 0) = Some d" and pos: "0 < d"
  shows "1 \<le> n \<Longrightarrow> n \<le> 15 \<Longrightarrow>
           GetPseudorandomIndex_loop h (word_of_nat d) n = Inr (word_of_nat d)"
proof (induction n)
  case 0
  then show ?case by simp
next
  case (Suc n)
  have d16: "d < 16" using d by (rule hexDigitVal_lt16)
  have sd: "sint (word_of_nat d :: int64) = int d"
    using d16 by (intro sint_word_of_nat) simp
  obtain c cs where h: "h = c # cs" using len by (cases h) auto
  have c: "hexDigitVal c = Some d" using d h by simp
  have p1: "strconv_ParseInt [c] = Some (word_of_nat d)"
    using c hexDigitVal_sign [OF c] d16 by (simp add: strconv_ParseInt_def)
  show ?case
  proof (cases n)
    case 0
    have "int64_rem (word_of_nat d) (word_of_nat (Suc 0)) = Inr 0"
      by (simp add: int64_rem_def tmod_def)
    then show ?thesis
      using p1 len unfolding 0 h by (simp add: Let_def)
  next
    case (Suc m)
    have hexT: "\<forall>c\<in>set (take (Suc n) h). \<exists>d. hexDigitVal c = Some d"
      using hex by (meson in_set_takeD)
    have "take (Suc n) h \<noteq> []" using len by auto
    from strconv_ParseInt_hex [OF this hexT]
    obtain v where v: "parseUintHex 0 (take (Suc n) h) = Some v" "v < 2 ^ 60"
        "strconv_ParseInt (take (Suc n) h) = Some (word_of_nat v)"
      using len by auto
    have "parseUintHex d (take n cs) = Some v" using v(1) c unfolding h by simp
    from parseUintHex_lower [OF this] have "d * 16 ^ n \<le> v" using len Suc.prems h by simp
    moreover have "d * 16 ^ 1 \<le> d * 16 ^ n"
      using Suc by (intro mult_left_mono power_increasing) auto
    moreover have "d < d * 16 ^ 1" using pos by simp
    ultimately have "d < v" by linarith
    moreover have "sint (word_of_nat v :: int64) = int v"
      using v(2) by (intro sint_word_of_nat) simp
    ultimately have gt: "\<not> sint (word_of_nat v :: int64) \<le> sint (word_of_nat d :: int64)"
      using sd by simp
    have "GetPseudorandomIndex_loop h (word_of_nat d) (Suc n)
            = GetPseudorandomIndex_loop h (word_of_nat d) n"
      by (simp only: GetPseudorandomIndex_loop.simps Let_def v(3) gt option.case if_False)
    then show ?thesis using Suc.IH Suc.prems Suc by simp
  qed
qed

text \<open>The upper bound is attained for every hash function whose digest does not begin
  with the hexadecimal digit 0: a claim whose \<open>totalRelays\<close> is the value of the first digit
  is given the index \<open>totalRelays\<close>.\<close>

theorem GetPseudorandomIndex_first_digit:
  assumes "8 \<le> length (Hash pc [0x7B, 0x7D])"
      and "16 \<le> unat (hd (Hash pc [0x7B, 0x7D]))"
  shows "GetPseudorandomIndex pc k ctx (word_of_nat (unat (hd (Hash pc [0x7B, 0x7D])) div 16)) hdr
           = Inr (word_of_nat (unat (hd (Hash pc [0x7B, 0x7D])) div 16))"
proof -
  let ?b = "Hash pc [0x7B, 0x7D]"
  let ?d = "hex_EncodeToString ?b"
  let ?n = "unat (hd ?b) div 16"
  have l: "\<not> length ?d < 15" using assms(1) by (simp add: length_hex_EncodeToString)
  have hex: "\<forall>c\<in>set (take 15 ?d). \<exists>d. hexDigitVal c = Some d"
    using hex_EncodeToString_digits by (meson in_set_takeD)
  have len: "length (take 15 ?d) = 15" using l by simp
  obtain b0 bs where b: "?b = b0 # bs" using assms(1) by (cases ?b) auto
  have n16: "?n < 16" using unsigned_less [of "hd ?b", where 'a = nat] by auto
  have "take 15 ?d ! 0 = hextable ! ?n"
    unfolding b by (simp add: hex_EncodeToString_def)
  then have d0: "hexDigitVal (take 15 ?d ! 0) = Some ?n"
    using hexDigitVal_hextable [OF n16] by simp
  have pos: "0 < ?n" using assms(2) by simp
  from GetPseudorandomIndex_loop_first_digit [OF hex len d0 pos, of 15]
  show ?thesis unfolding GetPseudorandomIndex_digest using l by simp
qed

theorem GetPseudorandomIndex_first_digit_witness:
  "GetPseudorandomIndex ex_pc ex_k (ex_ctx 130 []) 8 (ex_header 100) = Inr 8"
  using GetPseudorandomIndex_first_digit [of ex_pc ex_k "ex_ctx 130 []" "ex_header 100"]
  by (simp add: ex_pc_def ex_Hash_def sha3_256_braces_def)

subsection \<open>Maturity\<close>

lemma sint_word_of_int_64: "- (2 ^ 63) \<le> x \<Longrightarrow> x < 2 ^ 63 \<Longrightarrow> sint (word_of_int x :: int64) = x"
  by (simp add: sint_sbintrunc' signed_take_bit_int_eq_self)

text \<open>\<^bold>\<open>Claim C5.\<close>
  A claim is mature exactly when the current height is at least
  \<open>sessionBlockHeight + proofWaitingPeriod * sessionFrequency\<close>. Go computes the threshold in
  \<^verbatim>\<open>int64\<close>, where it wraps around; the equivalence holds whenever the threshold, computed over
  the integers, fits \<^verbatim>\<open>int64\<close>.
\<close>

theorem ClaimIsMature_threshold:
  assumes "- (2 ^ 63) \<le> sint sessionBlockHeight
                + sint (ProofWaitingPeriod k ctx) * sint (SessionFrequency k ctx)"
      and "sint sessionBlockHeight
                + sint (ProofWaitingPeriod k ctx) * sint (SessionFrequency k ctx) < 2 ^ 63"
  shows "ClaimIsMature k ctx sessionBlockHeight \<longleftrightarrow>
           sint sessionBlockHeight
             + sint (ProofWaitingPeriod k ctx) * sint (SessionFrequency k ctx)
           \<le> sint (BlockHeight ctx)"
proof -
  let ?wp = "ProofWaitingPeriod k ctx" and ?sf = "SessionFrequency k ctx"
  have "?wp * ?sf + sessionBlockHeight
          = word_of_int (sint sessionBlockHeight + sint ?wp * sint ?sf)"
    by simp
  then have "sint (?wp * ?sf + sessionBlockHeight)
          = sint sessionBlockHeight + sint ?wp * sint ?sf"
    using assms sint_word_of_int_64 by metis
  then show ?thesis by (simp add: ClaimIsMature_def Let_def)
qed

theorem ClaimIsMature_threshold_witness:
  "ClaimIsMature ex_k (ex_ctx 120 []) 100 \<and> \<not> ClaimIsMature ex_k (ex_ctx 119 []) 100"
  using ClaimIsMature_threshold [of 100 ex_k "ex_ctx 120 []"] ClaimIsMature_threshold [of 100 ex_k "ex_ctx 119 []"]
  by (simp add: ex_k_def ex_ctx_def BlockHeight_def)

text \<open>Without that proviso the equivalence fails: for a session height of \<open>2\<^sup>6\<^sup>3 - 1\<close> the
  threshold wraps to a negative number, and the claim is mature at height 0.\<close>

theorem ClaimIsMature_overflow_counterexample:
  "ClaimIsMature ex_k (ex_ctx 0 []) 9223372036854775807 \<and>
   \<not> (sint (9223372036854775807 :: int64)
        + sint (ProofWaitingPeriod ex_k (ex_ctx 0 [])) * sint (SessionFrequency ex_k (ex_ctx 0 []))
      \<le> sint (BlockHeight (ex_ctx 0 [])))"
  by (simp add: ClaimIsMature_def ex_k_def ex_ctx_def BlockHeight_def)

subsection \<open>The depth of the Merkle tree in float64\<close>

text \<open>The constants of the model are the \<^verbatim>\<open>float64\<close> nearest to the decimal literals of
  log.go and to the constant expressions \<^verbatim>\<open>1/Ln2\<close> and \<^verbatim>\<open>Sqrt2/2\<close> of package math
  (\<^verbatim>\<open>Ln2 = 0.693147180559945309417232121458176568\<close>,
  \<^verbatim>\<open>Sqrt2 = 1.41421356237309504880168872420969807856967187537694807317667974\<close>).\<close>

lemma log_constants_nearest:
  "nearest_float64 Ln2Hi (693147180369123816490 / 10 ^ 21)
   \<and> nearest_float64 Ln2Lo (190821492927058770002 / 10 ^ 30)
   \<and> nearest_float64 L1 (6666666666666735130 / 10 ^ 19)
   \<and> nearest_float64 L2 (3999999999940941908 / 10 ^ 19)
   \<and> nearest_float64 L3 (2857142874366239149 / 10 ^ 19)
   \<and> nearest_float64 L4 (2222219843214978396 / 10 ^ 19)
   \<and> nearest_float64 L5 (1818357216161805012 / 10 ^ 19)
   \<and> nearest_float64 L6 (1531383769920937332 / 10 ^ 19)
   \<and> nearest_float64 L7 (1479819860511658591 / 10 ^ 19)"
  by (simp add: nearest_float64_def f64_unit_def L1_def L2_def L3_def L4_def L5_def L6_def L7_def
        Ln2Hi_def Ln2Lo_def)

lemma inv_Ln2_nearest:
  "nearest_float64 inv_Ln2 (1 / (693147180559945309417232121458176568 / 10 ^ 36))"
  by (simp add: nearest_float64_def f64_unit_def inv_Ln2_def)

lemma Sqrt2_half_nearest:
  "nearest_float64 Sqrt2_half
     (141421356237309504880168872420969807856967187537694807317667974 / 10 ^ 62 / 2)"
  by (simp add: nearest_float64_def f64_unit_def Sqrt2_half_def)

text \<open>Evaluation: a \<open>let\<close> is unfolded once its value is known, so that every operation is
  computed once.\<close>

lemma Let_Fin: "Let (Fin m e) f = f (Fin m e)"
  by (simp add: Let_def)

lemma Let_Pair: "Let (a, b) f = f (a, b)"
  by (simp add: Let_def)

lemmas float64_eval =
  bit_length_def compute_floorlog round_half_even_def round_float64_def fin_less_def f64_sub_def
  float64_of_int_def math_Frexp_def Ln2Hi_def Ln2Lo_def L1_def L2_def L3_def L4_def L5_def L6_def
  L7_def Sqrt2_half_def inv_Ln2_def math_Log_def math_Log2_def math_Floor_def math_Ceil_def
  int_of_float64_def Let_Fin Let_Pair

text \<open>For 5 relays: \<^verbatim>\<open>float64(5)\<close> is 5, \<^verbatim>\<open>Frexp\<close> splits it into \<open>0.625 * 2\<^sup>3\<close>,
  \<^verbatim>\<open>Log(0.625)\<close> is \<open>-0.47000362924573558\<close>, \<^verbatim>\<open>Log2\<close> is \<open>2.3219280948873622\<close> and the
  depth is 3.\<close>

lemma math_Log_5: "math_Log (Fin 5 (- 3)) = Fin (- 8466832678135502) (- 54)"
  by (simp add: float64_eval)

lemma math_Log2_5: "math_Log2 (float64_of_int 5) = Fin 5228517251457905 (- 51)"
  by (simp add: float64_eval)

lemma depth_float64_5: "int_of_float64 u (math_Ceil (math_Log2 (float64_of_int 5))) = 3"
  by (simp add: float64_eval)

text \<open>For \<open>2\<^sup>4\<^sup>9 + 1\<close> relays: \<open>log\<^sub>2 (2\<^sup>4\<^sup>9 + 1)\<close> is 49 and \<open>2.56 * 10\<^sup>-\<^sup>1\<^sup>5\<close>; the \<^verbatim>\<open>float64\<close>
  next to 49 are \<open>7.1 * 10\<^sup>-\<^sup>1\<^sup>5\<close> apart, and the last addition of \<^verbatim>\<open>log2\<close> rounds to 49 itself.
  \<^verbatim>\<open>Ceil\<close> leaves 49, while \<open>\<lceil>log\<^sub>2 (2\<^sup>4\<^sup>9 + 1)\<rceil>\<close> is 50. The same happens at \<open>2\<^sup>5\<^sup>0 + 1\<close>; at
  \<open>2\<^sup>4\<^sup>8 + 1\<close> the sum still rounds upwards and the depth is the exact 49.\<close>

lemma math_Log2_2_49_1:
  "math_Log2 (float64_of_int 562949953421313) = Fin 6896136929411072 (- 47)"
  by (simp add: float64_eval)

lemma depth_float64_2_49_1:
  "int_of_float64 u (math_Ceil (math_Log2 (float64_of_int 562949953421313))) = 49"
  by (simp add: float64_eval)

lemma depth_float64_2_50_1:
  "int_of_float64 u (math_Ceil (math_Log2 (float64_of_int 1125899906842625))) = 50"
  by (simp add: float64_eval)

lemma depth_float64_2_48_1:
  "int_of_float64 u (math_Ceil (math_Log2 (float64_of_int 281474976710657))) = 49"
  by (simp add: float64_eval)

text \<open>For no relays the logarithm is \<open>-\<infinity>\<close>, and for a negative number of relays it is a
  NaN: the depth is what the implementation makes of them.\<close>

lemma depth_float64_0: "int_of_float64 u (math_Ceil (math_Log2 (float64_of_int 0))) = u NegInf"
  by (simp add: float64_eval)

lemma depth_float64_minus_1:
  "int_of_float64 u (math_Ceil (math_Log2 (float64_of_int (- 1)))) = u NaN"
  by (simp add: float64_eval)

text \<open>A power of two takes the branch \<^verbatim>\<open>frac == 0.5\<close> of \<^verbatim>\<open>log2\<close>, and its depth is exact.\<close>

lemma depth_float64_power_of_two:
  assumes "k \<le> 62"
  shows "int_of_float64 u (math_Ceil (math_Log2 (float64_of_int (2 ^ k)))) = int k"
proof -
  define a b where "a = k div 8" and "b = k mod 8"
  have k: "k = 8 * a + b" by (simp add: a_def b_def)
  have "a < 8" "b < 8" using assms by (simp_all add: a_def b_def)
  then have "a \<in> {0, 1, 2, 3, 4, 5, 6, 7}" "b \<in> {0, 1, 2, 3, 4, 5, 6, 7}"
    by (simp_all, arith+)
  then show ?thesis
    using assms unfolding k
    by (elim insertE emptyE) (simp_all add: float64_eval)
qed

lemma ceillog2_5: "ceillog2 5 = 3"
  by (rule ceillog2_eqI) simp_all

lemma ceillog2_2_49_1: "ceillog2 562949953421313 = 50"
  by (rule ceillog2_eqI) simp_all

lemma ceillog2_2_50_1: "ceillog2 1125899906842625 = 51"
  by (rule ceillog2_eqI) simp_all

lemma ceillog2_2_48_1: "ceillog2 281474976710657 = 49"
  by (rule ceillog2_eqI) simp_all

lemma depth_exact_5: "depth_exact pc 5"
  by (simp add: depth_exact_def depth_float64_5 ceillog2_5)

lemma depth_exact_2_48_1: "depth_exact pc 281474976710657"
  by (simp add: depth_exact_def depth_float64_2_48_1 ceillog2_2_48_1)

lemma depth_exact_power_of_two:
  assumes "k \<le> 62"
  shows "depth_exact pc (2 ^ k)"
proof -
  have le: "(2 :: int) ^ k \<le> 2 ^ 62" by (rule power_increasing) (use assms in simp_all)
  have "- (2 ^ 63) \<le> (2 :: int) ^ k" by (rule order_trans [of _ 0]) simp_all
  moreover have "(2 :: int) ^ k < 2 ^ 63" using le by simp
  ultimately have "sint (word_of_int (2 ^ k) :: int64) = 2 ^ k"
    by (rule sint_word_of_int_64)
  then have "sint (2 ^ k :: int64) = 2 ^ k" by simp
  then show ?thesis
    by (simp add: depth_exact_def depth_float64_power_of_two [OF assms] nat_power_eq)
qed

text \<open>The depth is exact for every number of relays from 1 to 16.\<close>

lemma ceillog2_small:
  "ceillog2 3 = 2" "ceillog2 4 = 2" "ceillog2 6 = 3" "ceillog2 7 = 3" "ceillog2 8 = 3"
  "ceillog2 9 = 4" "ceillog2 10 = 4" "ceillog2 11 = 4" "ceillog2 12 = 4" "ceillog2 13 = 4"
  "ceillog2 14 = 4" "ceillog2 15 = 4" "ceillog2 16 = 4"
  by (rule ceillog2_eqI; simp)+

lemma depth_exact_small:
  assumes "1 \<le> sint n" and "sint n \<le> 16"
  shows "depth_exact pc n"
proof -
  have "sint n \<in> {1, 2, 3, 4, 5, 6, 7, 8, 9, 10, 11, 12, 13, 14, 15, 16}"
    using assms by simp arith
  then show ?thesis
    unfolding depth_exact_def
    by (elim insertE emptyE) (simp_all add: float64_eval ceillog2_small ceillog2_5)
qed

lemma depth_not_exact_2_49_1: "\<not> depth_exact pc 562949953421313"
  by (simp add: depth_exact_def depth_float64_2_49_1 ceillog2_2_49_1)

lemma depth_not_exact_2_50_1: "\<not> depth_exact pc 1125899906842625"
  by (simp add: depth_exact_def depth_float64_2_50_1 ceillog2_2_50_1)

subsection \<open>The checks of the proof\<close>

lemma first_error_None: "first_error cs = None \<longleftrightarrow> (\<forall>c \<in> set cs. c = None)"
  by (induction cs rule: first_error.induct) auto

lemma ex_digest_length: "8 \<le> length (Hash ex_pc [0x7B, 0x7D])"
  by (simp add: ex_pc_def ex_Hash_def sha3_256_braces_def)

lemma ex_index_2_49_1:
  "GetPseudorandomIndex ex_pc k ctx 562949953421313 hdr = Inr 35448912546"
  unfolding GetPseudorandomIndex_digest
  by (simp add: ex_pc_def sha3_digest_prefix GetPseudorandomIndex_loop_unfold
        strconv_ParseInt_def hexDigitVal_def int64_rem_def tmod_def)

lemma ex_index_2_50_1:
  "GetPseudorandomIndex ex_pc k ctx 1125899906842625 hdr = Inr 35448912546"
  unfolding GetPseudorandomIndex_digest
  by (simp add: ex_pc_def sha3_digest_prefix GetPseudorandomIndex_loop_unfold
        strconv_ParseInt_def hexDigitVal_def int64_rem_def tmod_def)

text \<open>The panics of \<^verbatim>\<open>ValidateProof\<close> are those of \<^verbatim>\<open>GetPseudorandomIndex\<close>, and none of them
  is an index out of range.\<close>

lemma GetPseudorandomIndex_loop_no_index_panic:
  "GetPseudorandomIndex_loop h t i \<noteq> Inl IndexOutOfRange"
  by (induction i) (auto simp: Let_def int64_rem_def split: option.splits sum.splits if_splits)

lemma GetPseudorandomIndex_no_index_panic:
  "GetPseudorandomIndex pc k ctx t hdr \<noteq> Inl IndexOutOfRange"
  by (simp add: GetPseudorandomIndex_digest GetPseudorandomIndex_loop_no_index_panic)

lemma ValidateProof_panic:
  "ValidateProof pc k ctx claimMsg proofMsg = Inl p \<longleftrightarrow>
     GetPseudorandomIndex pc k ctx (MsgClaim.TotalRelays claimMsg)
       (MsgClaim.SessionHeader claimMsg) = Inl p"
  by (simp add: ValidateProof_def split: sum.split option.split)

text \<open>\<^bold>\<open>Claim C9.\<close>
  \<^verbatim>\<open>ValidateProof\<close> reads \<^verbatim>\<open>proofMsg.MerkleProofs[0]\<close> without a check of a length, and it
  needs none: the Merkle proofs of a proof message are an array of two Merkle proofs, not a
  slice, and index 0 is within the bounds of every such array. No proof message makes
  \<^verbatim>\<open>ValidateProof\<close> panic with an index out of range; and with a digest of at least 8 bytes
  (so that the index is computed) it returns, an error or nil, for every proof message.
\<close>

theorem ValidateProof_index_in_bounds:
  "ValidateProof pc k ctx claimMsg proofMsg \<noteq> Inl IndexOutOfRange
   \<and> (8 \<le> length (Hash pc [0x7B, 0x7D])
        \<longrightarrow> (\<exists>r. ValidateProof pc k ctx claimMsg proofMsg = Inr r))"
proof -
  have "ValidateProof pc k ctx claimMsg proofMsg \<noteq> Inl IndexOutOfRange"
    using GetPseudorandomIndex_no_index_panic by (simp add: ValidateProof_panic)
  moreover have "\<exists>r. ValidateProof pc k ctx claimMsg proofMsg = Inr r"
    if "8 \<le> length (Hash pc [0x7B, 0x7D])"
  proof -
    from GetPseudorandomIndex_returns [OF that]
    obtain idx where "GetPseudorandomIndex pc k ctx (MsgClaim.TotalRelays claimMsg)
                        (MsgClaim.SessionHeader claimMsg) = Inr idx" by blast
    then show ?thesis by (simp add: ValidateProof_def split: option.split)
  qed
  ultimately show ?thesis by blast
qed

theorem ValidateProof_index_in_bounds_witness:
  "\<exists>r. ValidateProof ex_pc ex_k (ex_ctx 130 []) (ex_claim 100) (ex_proof 3) = Inr r"
  using ValidateProof_index_in_bounds [of ex_pc ex_k "ex_ctx 130 []" "ex_claim 100" "ex_proof 3"]
        ex_digest_length
  by simp

text \<open>The claim expects a panic for a proof message without Merkle proofs. The proof message
  that carries none is the zero value of its type, whose array holds two zero Merkle
  proofs. For a claim of 5 relays the required index is 0: the first check reads
  \<^verbatim>\<open>MerkleProofs[0].Index = 0\<close> and passes, the second finds no hash sum where 3 are due, and
  the answer is an error, not a panic.\<close>

theorem ValidateProof_zero_proof_counterexample:
  "ValidateProof ex_pc ex_k (ex_ctx 130 []) (ex_claim 100) MsgProof_zero
     = Inr (Some (InvalidProofsError ''pocketcore''))"
  by (simp add: ValidateProof_def ex_claim_def ex_index_5 MsgProof_zero_def MerkleProof_zero_def
        depth_float64_5)
     (simp add: ex_pc_def)

text \<open>Whatever the number of relays, a proof whose first Merkle proof has a number of hash
  sums different from the depth that the code computes in \<^verbatim>\<open>float64\<close> is rejected.\<close>

lemma ValidateProof_depth_check:
  assumes "8 \<le> length (Hash pc [0x7B, 0x7D])"
      and "int (length (HashSums (fst (MerkleProofs proofMsg))))
             \<noteq> int_of_float64 (int_of_unrepresentable pc)
                 (math_Ceil (math_Log2 (float64_of_int (sint (MsgClaim.TotalRelays claimMsg)))))"
  shows "ValidateProof pc k ctx claimMsg proofMsg = Inr (Some (InvalidProofsError (ModuleName pc)))"
proof -
  from GetPseudorandomIndex_returns [OF assms(1)]
  obtain reqProof where "GetPseudorandomIndex pc k ctx (MsgClaim.TotalRelays claimMsg)
                           (MsgClaim.SessionHeader claimMsg) = Inr reqProof" by blast
  then show ?thesis using assms(2) by (simp add: ValidateProof_def)
qed

text \<open>\<^bold>\<open>Claim C3.\<close>
  With a digest of at least 8 bytes (so that the index is computed), \<^verbatim>\<open>ValidateProof\<close>
  returns the error of the first of the five checks that fails, in the specification's
  order, and nil exactly when all five pass, for every claim at whose \<open>TotalRelays\<close> the
  depth that the code computes in \<^verbatim>\<open>float64\<close>,
  \<^verbatim>\<open>int(math.Ceil(math.Log2(float64(TotalRelays))))\<close>, is the exact \<open>\<lceil>log\<^sub>2 TotalRelays\<rceil>\<close>. It is
  exact for every \<open>TotalRelays\<close> from 1 to 16, at every power of two up to \<open>2\<^sup>6\<^sup>2\<close> and at
  \<open>2\<^sup>4\<^sup>8 + 1\<close> (\<open>depth_exact_small\<close>, \<open>depth_exact_power_of_two\<close>, \<open>depth_exact_2_48_1\<close>).
\<close>

theorem ValidateProof_first_failing_check:
  assumes "8 \<le> length (Hash pc [0x7B, 0x7D])"
      and "depth_exact pc (MsgClaim.TotalRelays claimMsg)"
  shows "\<exists>reqProof.
           GetPseudorandomIndex pc k ctx (MsgClaim.TotalRelays claimMsg)
             (MsgClaim.SessionHeader claimMsg) = Inr reqProof
         \<and> ValidateProof pc k ctx claimMsg proofMsg
             = Inr (first_error (spec_checks pc claimMsg proofMsg reqProof))
         \<and> (ValidateProof pc k ctx claimMsg proofMsg = Inr None
              \<longleftrightarrow> (\<forall>c \<in> set (spec_checks pc claimMsg proofMsg reqProof). c = None))"
proof -
  from GetPseudorandomIndex_returns [OF assms(1)]
  obtain reqProof where r: "GetPseudorandomIndex pc k ctx (MsgClaim.TotalRelays claimMsg)
                              (MsgClaim.SessionHeader claimMsg) = Inr reqProof" by blast
  have "ValidateProof pc k ctx claimMsg proofMsg
          = Inr (first_error (spec_checks pc claimMsg proofMsg reqProof))"
    using r assms(2)
    by (auto simp: ValidateProof_def spec_checks_def depth_exact_def split: option.splits)
  then show ?thesis using r by (simp add: first_error_None)
qed

theorem ValidateProof_first_failing_check_witness:
  "ValidateProof ex_pc ex_k (ex_ctx 130 []) (ex_claim 100) (ex_proof 3) = Inr None
   \<and> ValidateProof ex_pc ex_k (ex_ctx 130 []) (ex_claim 100) (ex_proof 2)
       = Inr (Some (InvalidProofsError ''pocketcore''))"
proof -
  have i: "GetPseudorandomIndex ex_pc ex_k (ex_ctx 130 []) (MsgClaim.TotalRelays (ex_claim 100))
             (MsgClaim.SessionHeader (ex_claim 100)) = Inr 0"
    by (simp add: ex_claim_def ex_index_5)
  have e: "depth_exact ex_pc (MsgClaim.TotalRelays (ex_claim 100))"
    by (simp add: ex_claim_def depth_exact_5)
  have "ValidateProof ex_pc ex_k (ex_ctx 130 []) (ex_claim 100) (ex_proof d)
          = Inr (first_error (spec_checks ex_pc (ex_claim 100) (ex_proof d) 0))" for d
    using ValidateProof_first_failing_check
            [OF ex_digest_length e, of ex_k "ex_ctx 130 []" "ex_proof d"]
    by (simp add: i)
  then show ?thesis
    by (simp add: spec_checks_def ex_claim_def ceillog2_5 ex_pc_def ex_proof_def)
qed

text \<open>Without that proviso the claim fails. For a claim of \<open>2\<^sup>4\<^sup>9 + 1\<close> relays the code's depth
  is 49 and the exact one is 50: a proof that reveals the required leaf with 50 hash sums
  passes each of the five checks as the specification states them, and \<^verbatim>\<open>ValidateProof\<close>
  returns \<open>InvalidProofsError\<close>.\<close>

theorem ValidateProof_float_depth_counterexample:
  "spec_checks ex_pc (ex_relays_claim 562949953421313) (ex_relays_proof 50) 35448912546
     = [None, None, None, None, None]
   \<and> GetPseudorandomIndex ex_pc ex_k (ex_ctx 130 [])
        (MsgClaim.TotalRelays (ex_relays_claim 562949953421313))
        (MsgClaim.SessionHeader (ex_relays_claim 562949953421313)) = Inr 35448912546
   \<and> ValidateProof ex_pc ex_k (ex_ctx 130 []) (ex_relays_claim 562949953421313)
        (ex_relays_proof 50) = Inr (Some (InvalidProofsError ''pocketcore''))"
  by (simp add: spec_checks_def ValidateProof_def ex_relays_claim_def ex_relays_proof_def
        ex_index_2_49_1 depth_float64_2_49_1 ceillog2_2_49_1)
     (simp add: ex_pc_def)

text \<open>\<^bold>\<open>Claim C4.\<close>
  For a claim of at least 2 relays at whose \<open>TotalRelays\<close> the depth that the code computes
  in \<^verbatim>\<open>float64\<close> is the exact \<open>\<lceil>log\<^sub>2 TotalRelays\<rceil>\<close>, a proof whose first Merkle proof has a
  number of hash sums different from \<open>\<lceil>log\<^sub>2 TotalRelays\<rceil>\<close> is rejected with
  \<open>InvalidProofsError\<close>, whether the index it reveals is the required one or not (for a
  digest of at least 8 bytes, so that the index is computed).
\<close>

theorem ValidateProof_depth_mismatch_rejected:
  assumes "8 \<le> length (Hash pc [0x7B, 0x7D])"
      and "depth_exact pc (MsgClaim.TotalRelays claimMsg)"
      and "2 \<le> sint (MsgClaim.TotalRelays claimMsg)"
      and "length (HashSums (fst (MerkleProofs proofMsg)))
             \<noteq> ceillog2 (nat (sint (MsgClaim.TotalRelays claimMsg)))"
  shows "ValidateProof pc k ctx claimMsg proofMsg = Inr (Some (InvalidProofsError (ModuleName pc)))"
proof -
  from GetPseudorandomIndex_returns [OF assms(1)]
  obtain reqProof where "GetPseudorandomIndex pc k ctx (MsgClaim.TotalRelays claimMsg)
                           (MsgClaim.SessionHeader claimMsg) = Inr reqProof" by blast
  then show ?thesis using assms(2,4) by (simp add: ValidateProof_def depth_exact_def)
qed

theorem ValidateProof_depth_mismatch_rejected_witness:
  "ValidateProof ex_pc ex_k (ex_ctx 130 []) (ex_claim 100) (ex_proof 2)
       = Inr (Some (InvalidProofsError (ModuleName ex_pc)))"
  by (rule ValidateProof_depth_mismatch_rejected [OF ex_digest_length])
     (simp_all add: ex_claim_def ceillog2_5 depth_exact_5 ex_proof_def)

text \<open>Without that proviso the claim fails. For a claim of \<open>2\<^sup>5\<^sup>0 + 1\<close> relays the exact depth
  is 51 and the code's is 50: a proof that reveals the required leaf with 50 hash sums is
  not rejected, it is accepted.\<close>

theorem ValidateProof_shallow_proof_counterexample:
  "2 \<le> sint (MsgClaim.TotalRelays (ex_relays_claim 1125899906842625))
   \<and> length (HashSums (fst (MerkleProofs (ex_relays_proof 50))))
        \<noteq> ceillog2 (nat (sint (MsgClaim.TotalRelays (ex_relays_claim 1125899906842625))))
   \<and> ValidateProof ex_pc ex_k (ex_ctx 130 []) (ex_relays_claim 1125899906842625)
        (ex_relays_proof 50) = Inr None"
  by (simp add: ValidateProof_def ex_relays_claim_def ex_relays_proof_def
        ex_index_2_50_1 depth_float64_2_50_1 ceillog2_2_50_1)
     (simp add: ex_pc_def)

subsection \<open>The store\<close>

lemma map_of_store_Set: "map_of (store_Set s key v) = (map_of s)(key \<mapsto> v)"
  by (induction s) (auto simp: fun_eq_iff)

lemma map_of_store_Delete: "map_of (store_Delete s key) = (map_of s)(key := None)"
  by (induction s) (auto simp: store_Delete_def fun_eq_iff)

lemma store_Get_Set: "store_Get (store_Set s key v) key' = (if key' = key then Some v else store_Get s key')"
  by (simp add: store_Get_def map_of_store_Set)

lemma store_Get_Delete: "store_Get (store_Delete s key) key' = (if key' = key then None else store_Get s key')"
  by (simp add: store_Get_def map_of_store_Delete)

subsection \<open>The expiration sweep\<close>

lemma DeleteExpiredClaims_loop_ok:
  "\<forall>e\<in>set it. entry_ok k ctx (snd e) \<Longrightarrow>
     DeleteExpiredClaims_loop k ctx it store
       = Inr (filter (\<lambda>kv. fst kv \<notin> expired_keys k ctx it) store)"
proof (induction it arbitrary: store)
  case Nil
  then show ?case by (simp add: expired_keys_def)
next
  case (Cons e it)
  obtain key val where e: "e = (key, val)" by (cases e)
  from Cons.prems e obtain msg where msg: "UnmarshalClaim (cdc k) val = Some msg"
      and nz: "SessionFrequency k
                 (WithBlockHeight ctx (SessionBlockHeight (MsgClaim.SessionHeader msg))) \<noteq> 0"
    by (auto simp: entry_ok_def split: option.splits)
  have rest: "\<forall>e\<in>set it. entry_ok k ctx (snd e)" using Cons.prems by simp
  show ?case
  proof (cases "entry_expired k ctx val")
    case True
    then have "expired_keys k ctx (e # it) = insert key (expired_keys k ctx it)"
      by (auto simp: expired_keys_def e)
    moreover have "DeleteExpiredClaims_loop k ctx (e # it) store
        = DeleteExpiredClaims_loop k ctx it (store_Delete store key)"
      using True msg nz by (simp add: e entry_expired_def int64_quo_def Let_def)
    ultimately show ?thesis
      using Cons.IH [OF rest, of "store_Delete store key"]
      by (simp add: store_Delete_def conj_commute)
  next
    case False
    then have "expired_keys k ctx (e # it) = expired_keys k ctx it"
      by (auto simp: expired_keys_def e)
    moreover have "DeleteExpiredClaims_loop k ctx (e # it) store
        = DeleteExpiredClaims_loop k ctx it store"
      using False msg nz by (simp add: e entry_expired_def int64_quo_def Let_def)
    ultimately show ?thesis using Cons.IH [OF rest, of store] by simp
  qed
qed

lemma DeleteExpiredClaims_loop_Inr_ok:
  "DeleteExpiredClaims_loop k ctx it store = Inr store' \<Longrightarrow> \<forall>e\<in>set it. entry_ok k ctx (snd e)"
proof (induction it arbitrary: store)
  case Nil
  then show ?case by simp
next
  case (Cons e it)
  obtain key val where e: "e = (key, val)" by (cases e)
  from Cons.prems have hd: "entry_ok k ctx val"
    by (auto simp: e entry_ok_def int64_quo_def Let_def split: option.splits if_splits)
  from Cons.prems obtain store'' where "DeleteExpiredClaims_loop k ctx it store'' = Inr store'"
    by (auto simp: e int64_quo_def Let_def split: option.splits if_splits)
  then have "\<forall>e\<in>set it. entry_ok k ctx (snd e)" by (rule Cons.IH)
  with hd show ?case by (simp add: e)
qed

lemma DeleteExpiredClaims_ok:
  assumes "\<forall>e\<in>set (KVStorePrefixIterator store (ClaimKey pc)). entry_ok k ctx (snd e)"
  shows "DeleteExpiredClaims pc k ctx store
           = Inr (filter (\<lambda>kv. fst kv \<notin>
                     expired_keys k ctx (KVStorePrefixIterator store (ClaimKey pc))) store)"
  unfolding DeleteExpiredClaims_def by (rule DeleteExpiredClaims_loop_ok [OF assms])

text \<open>\<^bold>\<open>Claim C7.\<close>
  Sweeping twice at the same height leaves what sweeping once leaves, for every store
  and every height: a second run of \<^verbatim>\<open>DeleteExpiredClaims\<close> on the store of the first returns
  that store, and when the first run panics the sequence panics the same way.
\<close>

theorem DeleteExpiredClaims_idempotent:
  "(case DeleteExpiredClaims pc k ctx store of
      Inl p \<Rightarrow> Inl p
    | Inr store' \<Rightarrow> DeleteExpiredClaims pc k ctx store')
   = DeleteExpiredClaims pc k ctx store"
proof (cases "DeleteExpiredClaims pc k ctx store")
  case (Inl p)
  then show ?thesis by simp
next
  case (Inr store')
  let ?it = "KVStorePrefixIterator store (ClaimKey pc)"
  have ok: "\<forall>e\<in>set ?it. entry_ok k ctx (snd e)"
    using Inr unfolding DeleteExpiredClaims_def by (rule DeleteExpiredClaims_loop_Inr_ok)
  have s': "store' = filter (\<lambda>kv. fst kv \<notin> expired_keys k ctx ?it) store"
    using DeleteExpiredClaims_ok [OF ok] Inr by simp
  let ?it' = "KVStorePrefixIterator store' (ClaimKey pc)"
  have sub: "set ?it' \<subseteq> set ?it"
    by (auto simp: s' KVStorePrefixIterator_def)
  then have ok': "\<forall>e\<in>set ?it'. entry_ok k ctx (snd e)" using ok by blast
  have none: "expired_keys k ctx ?it' = {}"
  proof -
    have "\<not> entry_expired k ctx (snd e)" if "e \<in> set ?it'" for e
    proof
      assume x: "entry_expired k ctx (snd e)"
      from that have "e \<in> set ?it" using sub by blast
      with x have "fst e \<in> expired_keys k ctx ?it"
        unfolding expired_keys_def by (cases e) auto
      moreover from that have "fst e \<notin> expired_keys k ctx ?it"
        by (auto simp: s' KVStorePrefixIterator_def)
      ultimately show False by contradiction
    qed
    then show ?thesis by (auto simp: expired_keys_def)
  qed
  have "DeleteExpiredClaims pc k ctx store' = Inr store'"
    using DeleteExpiredClaims_ok [OF ok'] by (simp add: none)
  with Inr show ?thesis by simp
qed

lemma ex_sweep: "DeleteExpiredClaims ex_pc ex_k (ex_ctx 150 []) ex_store = Inr ex_swept_store"
  by (simp add: DeleteExpiredClaims_def KVStorePrefixIterator_def ex_store_def ex_swept_store_def
        store_Delete_def ex_pc_def ex_k_def ex_codec_def ex_claim_def ex_header_def ex_ctx_def
        BlockHeight_def WithBlockHeight_def int64_quo_def tdiv_def)

theorem DeleteExpiredClaims_idempotent_witness:
  "DeleteExpiredClaims ex_pc ex_k (ex_ctx 150 []) ex_store = Inr ex_swept_store
   \<and> DeleteExpiredClaims ex_pc ex_k (ex_ctx 150 []) ex_swept_store = Inr ex_swept_store"
  using DeleteExpiredClaims_idempotent [of ex_pc ex_k "ex_ctx 150 []" ex_store] ex_sweep by simp

lemma store_inv_distinct: "store_inv s \<Longrightarrow> distinct (map fst s)"
  unfolding store_inv_def using strict_sorted_iff by blast

lemma map_of_filter_keys:
  "map_of (filter (\<lambda>kv. fst kv \<notin> K) s) key = (if key \<in> K then None else map_of s key)"
  by (induction s) auto

lemma int_div_le: "0 \<le> a \<Longrightarrow> a div b \<le> (a::int)"
  by (cases "a = 0") (simp_all add: int_div_le_self)

lemma tdiv_nonneg: "0 \<le> a \<Longrightarrow> 0 < b \<Longrightarrow> tdiv a b = a div b"
  by (simp add: tdiv_def sgn_if)

lemma tdiv_neg: "a < 0 \<Longrightarrow> 0 < b \<Longrightarrow> tdiv a b = - ((- a) div b)"
  by (simp add: tdiv_def sgn_if)

lemma entry_expired_spec:
  assumes "UnmarshalClaim (cdc k) val = Some msg" and "heights_ok k ctx msg"
  shows "entry_expired k ctx val \<longleftrightarrow> expired_spec k ctx msg"
proof -
  let ?sbh = "SessionBlockHeight (MsgClaim.SessionHeader msg)"
  let ?sc = "WithBlockHeight ctx ?sbh"
  let ?f = "sint (SessionFrequency k ?sc)" and ?x = "sint (ClaimExpiration k ?sc)"
  let ?d = "sint (BlockHeight ctx) - sint ?sbh"
  from assms(2) have f: "0 < ?f" and lo: "- (2 ^ 63) \<le> ?d" and hi: "?d < 2 ^ 63"
      and alt: "0 \<le> ?d \<or> 0 < ?x"
    by (auto simp: heights_ok_def Let_def)
  have "BlockHeight ctx - ?sbh = word_of_int ?d" by simp
  then have sd: "sint (BlockHeight ctx - ?sbh) = ?d"
    using lo hi sint_word_of_int_64 by metis
  have e: "entry_expired k ctx val \<longleftrightarrow> ?x \<le> sint (word_of_int (tdiv ?d ?f) :: int64)"
    using assms(1) by (simp add: entry_expired_def Let_def sd)
  show ?thesis
  proof (cases "0 \<le> ?d")
    case True
    have q: "tdiv ?d ?f = ?d div ?f" using True f by (rule tdiv_nonneg)
    have "0 \<le> ?d div ?f" using True f by (simp add: pos_imp_zdiv_nonneg_iff)
    moreover have "?d div ?f \<le> ?d" using True by (rule int_div_le)
    ultimately have "sint (word_of_int (?d div ?f) :: int64) = ?d div ?f"
      using hi by (intro sint_word_of_int_64) auto
    then show ?thesis using e q by (simp add: expired_spec_def Let_def)
  next
    case False
    then have neg: "?d < 0" by simp
    with alt have x: "0 < ?x" by simp
    have q: "tdiv ?d ?f = - ((- ?d) div ?f)" using neg f by (rule tdiv_neg)
    have "0 \<le> (- ?d) div ?f" using neg f by (simp add: pos_imp_zdiv_nonneg_iff)
    moreover have "(- ?d) div ?f \<le> - ?d" using neg by (intro int_div_le) simp
    ultimately have r: "- (2 ^ 63) \<le> - ((- ?d) div ?f)" "- ((- ?d) div ?f) \<le> 0"
      using lo by auto
    then have "sint (word_of_int (- ((- ?d) div ?f)) :: int64) = - ((- ?d) div ?f)"
      by (intro sint_word_of_int_64) auto
    with r x e q have "\<not> entry_expired k ctx val" by simp
    moreover have "?d div ?f < 0" using neg f by (rule div_neg_pos_less0)
    then have "\<not> expired_spec k ctx msg" using x by (simp add: expired_spec_def Let_def)
    ultimately show ?thesis by simp
  qed
qed

text \<open>\<^bold>\<open>Claim C6.\<close>
  After \<^verbatim>\<open>DeleteExpiredClaims\<close> at height \<open>h\<close>, a stored claim is absent exactly when
  \<open>floor((h - sessionBlockHeight) / sessionFrequency) \<ge> claimExpiration\<close>; every other entry
  of the store, claim or not, is as it was. Go's quotient truncates towards zero and its
  subtraction wraps, so this holds for stored claims whose heights satisfy \<open>heights_ok\<close>
  (and whose values decode); the store's keys are strictly ascending.
\<close>

theorem DeleteExpiredClaims_sweep:
  assumes inv: "store_inv store"
      and ok: "\<forall>(key, val) \<in> set (KVStorePrefixIterator store (ClaimKey pc)).
                 \<exists>msg. UnmarshalClaim (cdc k) val = Some msg \<and> heights_ok k ctx msg"
  shows "\<exists>store'. DeleteExpiredClaims pc k ctx store = Inr store' \<and>
           (\<forall>key. store_Get store' key =
              (case store_Get store key of
                 None \<Rightarrow> None
               | Some val \<Rightarrow> if swept pc k ctx key val then None else Some val))"
proof -
  let ?it = "KVStorePrefixIterator store (ClaimKey pc)"
  let ?EK = "expired_keys k ctx ?it"
  have eok: "\<forall>e\<in>set ?it. entry_ok k ctx (snd e)"
    using ok by (fastforce simp: entry_ok_def heights_ok_def Let_def)
  have D: "DeleteExpiredClaims pc k ctx store = Inr (filter (\<lambda>kv. fst kv \<notin> ?EK) store)"
    by (rule DeleteExpiredClaims_ok [OF eok])
  have dist: "distinct (map fst store)" using inv by (rule store_inv_distinct)
  have look: "store_Get (filter (\<lambda>kv. fst kv \<notin> ?EK) store) key =
      (case store_Get store key of
         None \<Rightarrow> None
       | Some val \<Rightarrow> if swept pc k ctx key val then None else Some val)" for key
  proof (cases "store_Get store key")
    case None
    then show ?thesis by (simp add: store_Get_def map_of_filter_keys)
  next
    case (Some val)
    then have mem: "(key, val) \<in> set store" by (simp add: store_Get_def map_of_SomeD)
    have uniq: "val' = val" if "(key, val') \<in> set store" for val'
      using map_of_is_SomeI [OF dist that] map_of_is_SomeI [OF dist mem] by simp
    have "key \<in> ?EK \<longleftrightarrow> swept pc k ctx key val"
    proof (cases "prefix (ClaimKey pc) key")
      case False
      then show ?thesis by (auto simp: expired_keys_def KVStorePrefixIterator_def swept_def)
    next
      case True
      with mem have it: "(key, val) \<in> set ?it" by (simp add: KVStorePrefixIterator_def)
      with ok obtain msg where msg: "UnmarshalClaim (cdc k) val = Some msg" "heights_ok k ctx msg"
        by blast
      have "key \<in> ?EK \<longleftrightarrow> entry_expired k ctx val"
      proof
        assume "key \<in> ?EK"
        then obtain val' where v': "(key, val') \<in> set ?it" "entry_expired k ctx val'"
          unfolding expired_keys_def by blast
        from v'(1) have "(key, val') \<in> set store" by (simp add: KVStorePrefixIterator_def)
        then have "val' = val" by (rule uniq)
        with v'(2) show "entry_expired k ctx val" by simp
      next
        assume "entry_expired k ctx val"
        with it show "key \<in> ?EK" unfolding expired_keys_def by blast
      qed
      also have "\<dots> \<longleftrightarrow> expired_spec k ctx msg" using msg by (rule entry_expired_spec)
      finally show ?thesis using True msg(1) by (simp add: swept_def)
    qed
    then show ?thesis using Some by (simp add: store_Get_def map_of_filter_keys)
  qed
  show ?thesis using D look by blast
qed

lemma ex_store_inv: "store_inv ex_store"
  by (simp add: store_inv_def ex_store_def)

theorem DeleteExpiredClaims_sweep_witness:
  "\<exists>store'. DeleteExpiredClaims ex_pc ex_k (ex_ctx 150 []) ex_store = Inr store'
     \<and> store_Get ex_store [0x01, 0xAA, 100] = Some [100]
     \<and> store_Get store' [0x01, 0xAA, 100] = None
     \<and> store_Get store' [0x01, 0xAA, 120] = Some [120]
     \<and> store_Get store' [0x02, 0xAA, 100] = Some [100]"
proof -
  have ok: "\<forall>(key, val) \<in> set (KVStorePrefixIterator ex_store (ClaimKey ex_pc)).
              \<exists>msg. UnmarshalClaim (cdc ex_k) val = Some msg \<and> heights_ok ex_k (ex_ctx 150 []) msg"
    by (simp add: KVStorePrefixIterator_def ex_store_def ex_pc_def ex_k_def ex_codec_def
          heights_ok_def ex_claim_def ex_header_def ex_ctx_def BlockHeight_def WithBlockHeight_def)
  from DeleteExpiredClaims_sweep [OF ex_store_inv ok] obtain store' where
    d: "DeleteExpiredClaims ex_pc ex_k (ex_ctx 150 []) ex_store = Inr store'"
    and l: "\<And>key. store_Get store' key =
              (case store_Get ex_store key of
                 None \<Rightarrow> None
               | Some val \<Rightarrow> if swept ex_pc ex_k (ex_ctx 150 []) key val then None else Some val)"
    by blast
  have "store_Get ex_store [0x01, 0xAA, 100] = Some [100]"
    by (simp add: store_Get_def ex_store_def)
  moreover have "store_Get store' [0x01, 0xAA, 100] = None"
    unfolding l
    by (simp add: store_Get_def ex_store_def swept_def ex_pc_def ex_k_def ex_codec_def
          expired_spec_def ex_claim_def ex_header_def ex_ctx_def BlockHeight_def WithBlockHeight_def)
  moreover have "store_Get store' [0x01, 0xAA, 120] = Some [120]"
    unfolding l
    by (simp add: store_Get_def ex_store_def swept_def ex_pc_def ex_k_def ex_codec_def
          expired_spec_def ex_claim_def ex_header_def ex_ctx_def BlockHeight_def WithBlockHeight_def)
  moreover have "store_Get store' [0x02, 0xAA, 100] = Some [100]"
    unfolding l
    by (simp add: store_Get_def ex_store_def swept_def ex_pc_def)
  ultimately show ?thesis using d by blast
qed

text \<open>Where the session began after the current height, the quotient \<open>(5 - 10) / 10\<close> is 0 in
  Go and its floor is \<open>-1\<close>: with an expiration of 0 sessions the claim is swept, and the rule
  with the floor keeps it.\<close>

theorem DeleteExpiredClaims_truncation_counterexample:
  "GetClaim ex_pc ex_k_expire0 (ex_ctx 5 []) (SetClaim ex_pc ex_k_expire0 (ex_ctx 5 []) [] (ex_claim 10))
      [0xAA] (ex_header 10) = Inr (ex_claim 10, True)
   \<and> DeleteExpiredClaims ex_pc ex_k_expire0 (ex_ctx 5 [])
        (SetClaim ex_pc ex_k_expire0 (ex_ctx 5 []) [] (ex_claim 10)) = Inr []
   \<and> \<not> (sint (ClaimExpiration ex_k_expire0 (ex_ctx 10 []))
          \<le> (sint (BlockHeight (ex_ctx 5 [])) - sint (SessionBlockHeight (ex_header 10)))
               div sint (SessionFrequency ex_k_expire0 (ex_ctx 10 [])))"
  by (simp add: GetClaim_def SetClaim_def DeleteExpiredClaims_def KVStorePrefixIterator_def
        store_Get_def store_Delete_def ex_pc_def ex_k_expire0_def ex_k_def ex_codec_def
        ex_claim_def ex_header_def ex_ctx_def BlockHeight_def WithBlockHeight_def
        int64_quo_def tdiv_def)

lemma store_inv_filter: "store_inv s \<Longrightarrow> store_inv (filter P s)"
  unfolding store_inv_def by (induction s) auto

text \<open>A sweep that returns only deletes: every entry it leaves was in the store, and the
  store's invariant is kept.\<close>

theorem DeleteExpiredClaims_only_deletes:
  assumes "DeleteExpiredClaims pc k ctx store = Inr store'"
  shows "set store' \<subseteq> set store \<and> (store_inv store \<longrightarrow> store_inv store')"
proof -
  let ?it = "KVStorePrefixIterator store (ClaimKey pc)"
  have ok: "\<forall>e\<in>set ?it. entry_ok k ctx (snd e)"
    using assms unfolding DeleteExpiredClaims_def by (rule DeleteExpiredClaims_loop_Inr_ok)
  have s': "store' = filter (\<lambda>kv. fst kv \<notin> expired_keys k ctx ?it) store"
    using DeleteExpiredClaims_ok [OF ok] assms by simp
  have "store_inv store'" if "store_inv store"
    using that unfolding s' by (rule store_inv_filter)
  then show ?thesis unfolding s' by auto
qed

theorem DeleteExpiredClaims_only_deletes_witness:
  "set ex_swept_store \<subseteq> set ex_store \<and> store_inv ex_store \<and> store_inv ex_swept_store"
  using DeleteExpiredClaims_only_deletes [OF ex_sweep] ex_store_inv by simp

subsection \<open>Claims in the store\<close>

lemma store_Set_keys: "fst ` set (store_Set s key v) = insert key (fst ` set s)"
proof -
  have "dom (map_of (store_Set s key v)) = insert key (dom (map_of s))"
    by (simp add: map_of_store_Set)
  then show ?thesis by (simp only: dom_map_of_conv_image_fst)
qed

lemma store_inv_Nil: "store_inv []"
  by (simp add: store_inv_def)

lemma store_inv_Set: "store_inv s \<Longrightarrow> store_inv (store_Set s key v)"
proof (induction s)
  case Nil
  then show ?case by (simp add: store_inv_def)
next
  case (Cons e s)
  obtain key' v' where e: "e = (key', v')" by (cases e)
  from Cons.prems have tl: "store_inv s" and lt: "\<forall>x\<in>set s. key' < fst x"
    by (auto simp: store_inv_def e)
  have IH: "sorted_wrt (<) (map fst (store_Set s key v))"
    using Cons.IH [OF tl] by (simp add: store_inv_def)
  show ?case
  proof (cases "key = key'")
    case True
    then show ?thesis using Cons.prems by (simp add: store_inv_def e)
  next
    case False
    show ?thesis
    proof (cases "key < key'")
      case True
      then show ?thesis using Cons.prems False by (auto simp: store_inv_def e)
    next
      case nlt: False
      with False have gt: "key' < key" by simp
      have "\<forall>x\<in>set (store_Set s key v). key' < fst x"
      proof
        fix x assume "x \<in> set (store_Set s key v)"
        then have "fst x \<in> insert key (fst ` set s)" using store_Set_keys [of s key v] by blast
        then show "key' < fst x" using gt lt by auto
      qed
      then show ?thesis using False nlt IH by (simp add: store_inv_def e)
    qed
  qed
qed

lemma store_inv_Delete: "store_inv s \<Longrightarrow> store_inv (store_Delete s key)"
  unfolding store_inv_def store_Delete_def
  by (induction s) auto

lemma store_Get_fold_SetClaim:
  assumes "store_Get store key = None"
      and "\<forall>m\<in>set msgs. KeyForClaim pc ctx (FromAddress m) (MsgClaim.SessionHeader m) \<noteq> key"
  shows "store_Get (foldl (SetClaim pc k ctx) store msgs) key = None"
  using assms
proof (induction msgs arbitrary: store)
  case Nil
  then show ?case by simp
next
  case (Cons m msgs)
  have "store_Get (SetClaim pc k ctx store m) key = None"
    using Cons.prems by (auto simp: SetClaim_def store_Get_Set)
  then show ?case using Cons.IH Cons.prems by simp
qed

text \<open>\<^bold>\<open>Claim C10.\<close>
  With a codec that decodes what it encodes, \<^verbatim>\<open>GetClaim\<close> after \<^verbatim>\<open>SetClaim\<close> returns the
  claim and \<open>true\<close>. For a key that was never set (the store was built from the empty store
  by setting claims under other keys), and for a key that \<^verbatim>\<open>DeleteClaim\<close> removed, it returns
  the zero \<^verbatim>\<open>MsgClaim\<close> and \<open>false\<close>.
\<close>

theorem SetClaim_GetClaim_round_trip:
  assumes "UnmarshalClaim (cdc k) (MarshalClaim (cdc k) msg) = Some msg"
  shows "GetClaim pc k ctx (SetClaim pc k ctx store msg) (FromAddress msg)
            (MsgClaim.SessionHeader msg) = Inr (msg, True)
       \<and> ((\<forall>m\<in>set msgs. KeyForClaim pc ctx (FromAddress m) (MsgClaim.SessionHeader m)
                            \<noteq> KeyForClaim pc ctx address hdr)
            \<longrightarrow> GetClaim pc k ctx (foldl (SetClaim pc k ctx) [] msgs) address hdr
                  = Inr (MsgClaim_zero, False))
       \<and> GetClaim pc k ctx (DeleteClaim pc k ctx store address hdr) address hdr
            = Inr (MsgClaim_zero, False)"
proof -
  have a: "GetClaim pc k ctx (SetClaim pc k ctx store msg) (FromAddress msg)
             (MsgClaim.SessionHeader msg) = Inr (msg, True)"
    using assms by (simp add: GetClaim_def SetClaim_def store_Get_Set)
  have b: "GetClaim pc k ctx (foldl (SetClaim pc k ctx) [] msgs) address hdr
             = Inr (MsgClaim_zero, False)"
    if "\<forall>m\<in>set msgs. KeyForClaim pc ctx (FromAddress m) (MsgClaim.SessionHeader m)
                         \<noteq> KeyForClaim pc ctx address hdr"
  proof -
    have "store_Get [] (KeyForClaim pc ctx address hdr) = None" by (simp add: store_Get_def)
    from store_Get_fold_SetClaim [OF this that]
    show ?thesis by (simp add: GetClaim_def)
  qed
  have c: "GetClaim pc k ctx (DeleteClaim pc k ctx store address hdr) address hdr
             = Inr (MsgClaim_zero, False)"
    by (simp add: GetClaim_def DeleteClaim_def store_Get_Delete)
  from a b c show ?thesis by blast
qed

theorem SetClaim_GetClaim_round_trip_witness:
  "GetClaim ex_pc ex_k (ex_ctx 150 []) (SetClaim ex_pc ex_k (ex_ctx 150 []) ex_store (ex_claim 130))
      [0xAA] (ex_header 130) = Inr (ex_claim 130, True)
   \<and> GetClaim ex_pc ex_k (ex_ctx 150 [])
       (foldl (SetClaim ex_pc ex_k (ex_ctx 150 [])) [] [ex_claim 100, ex_claim 120])
       [0xAA] (ex_header 130) = Inr (MsgClaim_zero, False)
   \<and> GetClaim ex_pc ex_k (ex_ctx 150 [])
       (DeleteClaim ex_pc ex_k (ex_ctx 150 []) ex_store [0xAA] (ex_header 100))
       [0xAA] (ex_header 100) = Inr (MsgClaim_zero, False)"
proof -
  have r: "UnmarshalClaim (cdc ex_k) (MarshalClaim (cdc ex_k) (ex_claim 130)) = Some (ex_claim 130)"
    by (simp add: ex_k_def ex_codec_def ex_claim_def ex_header_def)
  have n: "\<forall>m\<in>set [ex_claim 100, ex_claim 120].
             KeyForClaim ex_pc (ex_ctx 150 []) (FromAddress m) (MsgClaim.SessionHeader m)
               \<noteq> KeyForClaim ex_pc (ex_ctx 150 []) [0xAA] (ex_header 130)"
    by (simp add: ex_pc_def ex_claim_def ex_header_def)
  have f: "FromAddress (ex_claim 130) = [0xAA]" "MsgClaim.SessionHeader (ex_claim 130) = ex_header 130"
    by (simp_all add: ex_claim_def)
  from SetClaim_GetClaim_round_trip [OF r, where pc = ex_pc and ctx = "ex_ctx 150 []" and store = ex_store
              and msgs = "[ex_claim 100, ex_claim 120]" and address = "[0xAA]"
              and hdr = "ex_header 130"]
       SetClaim_GetClaim_round_trip [OF r, where pc = ex_pc and ctx = "ex_ctx 150 []" and store = ex_store
              and msgs = "[]" and address = "[0xAA]" and hdr = "ex_header 100"]
       n
  show ?thesis unfolding f by blast
qed

subsection \<open>The proof pass\<close>

lemma GetInvoice_DeleteClaim:
  "keys_disjoint pc ctx \<Longrightarrow>
     GetInvoice pc k ctx (DeleteClaim pc k ctx s a h) a' h' = GetInvoice pc k ctx s a' h'"
proof -
  assume "keys_disjoint pc ctx"
  then have "KeyForInvoice pc ctx a' h' \<noteq> KeyForClaim pc ctx a h"
    unfolding keys_disjoint_def by metis
  then show ?thesis by (simp add: GetInvoice_def DeleteClaim_def store_Get_Delete)
qed

lemma SendProofTx_loop_step_found:
  assumes "GetInvoice pc k ctx (kv w) addr (MsgClaim.SessionHeader p) = Inr (i, True)"
  shows "SendProofTx_loop pc k ctx n keybase claimTx addr (p # ps) w =
           SendProofTx_loop pc k ctx n keybase claimTx addr ps
             (w\<lparr>cache := DeleteInvoice (cache w) (MsgClaim.SessionHeader p),
                kv := DeleteClaim pc k ctx (kv w) addr (MsgClaim.SessionHeader p)\<rparr>)"
  using assms by simp

lemma SendProofTx_loop_step_not_found:
  assumes "GetInvoice pc k ctx (kv w) addr (MsgClaim.SessionHeader p) = Inr (i, False)"
      and "SendProofTx_loop pc k ctx n keybase claimTx addr (p # ps) w = Inr w'"
  shows "\<exists>c. forClaim c = p \<and>
           SendProofTx_loop pc k ctx n keybase claimTx addr ps (w\<lparr>sent := sent w @ [c]\<rparr>) = Inr w'"
  using assms
  apply (simp add: Let_def split: sum.splits prod.splits option.splits)
  apply (rule exI, rule conjI [rotated], assumption, simp)
  done

lemma SendProofTx_loop_settled:
  assumes dis: "keys_disjoint pc ctx"
  shows "SendProofTx_loop pc k ctx n keybase claimTx addr ps w = Inr w' \<Longrightarrow>
         GetInvoice pc k ctx (kv w) addr hdr = Inr (invoice, True) \<Longrightarrow>
           (\<forall>c\<in>set (sent w'). c \<in> set (sent w) \<or> MsgClaim.SessionHeader (forClaim c) \<noteq> hdr)
         \<and> (cache w hdr = None \<longrightarrow> cache w' hdr = None)
         \<and> (store_Get (kv w) (KeyForClaim pc ctx addr hdr) = None
              \<longrightarrow> store_Get (kv w') (KeyForClaim pc ctx addr hdr) = None)
         \<and> ((\<exists>p\<in>set ps. MsgClaim.SessionHeader p = hdr)
              \<longrightarrow> cache w' hdr = None
                  \<and> store_Get (kv w') (KeyForClaim pc ctx addr hdr) = None)"
proof (induction ps arbitrary: w)
  case Nil
  then show ?case by simp
next
  case (Cons p ps)
  let ?h = "MsgClaim.SessionHeader p"
  from Cons.prems(1) obtain i found where g: "GetInvoice pc k ctx (kv w) addr ?h = Inr (i, found)"
    by (cases "GetInvoice pc k ctx (kv w) addr ?h") auto
  show ?case
  proof (cases found)
    case True
    let ?w1 = "w\<lparr>cache := DeleteInvoice (cache w) ?h, kv := DeleteClaim pc k ctx (kv w) addr ?h\<rparr>"
    have run: "SendProofTx_loop pc k ctx n keybase claimTx addr ps ?w1 = Inr w'"
      using Cons.prems(1) g True SendProofTx_loop_step_found [of pc k ctx w addr p i] by simp
    have inv1: "GetInvoice pc k ctx (kv ?w1) addr hdr = Inr (invoice, True)"
      using Cons.prems(2) GetInvoice_DeleteClaim [OF dis] by simp
    note IH = Cons.IH [OF run inv1]
    have s1: "sent ?w1 = sent w" by simp
    have c1: "cache w hdr = None \<Longrightarrow> cache ?w1 hdr = None" by (simp add: DeleteInvoice_def)
    have k1: "store_Get (kv w) (KeyForClaim pc ctx addr hdr) = None
                \<Longrightarrow> store_Get (kv ?w1) (KeyForClaim pc ctx addr hdr) = None"
      by (simp add: DeleteClaim_def store_Get_Delete)
    have h1: "?h = hdr \<Longrightarrow> cache ?w1 hdr = None
                \<and> store_Get (kv ?w1) (KeyForClaim pc ctx addr hdr) = None"
      by (auto simp: DeleteInvoice_def DeleteClaim_def store_Get_Delete)
    from IH have A: "\<forall>c\<in>set (sent w'). c \<in> set (sent w) \<or> MsgClaim.SessionHeader (forClaim c) \<noteq> hdr"
      unfolding s1 by blast
    from IH have B: "cache w hdr = None \<longrightarrow> cache w' hdr = None"
      by (auto simp: DeleteInvoice_def)
    from IH have C: "store_Get (kv w) (KeyForClaim pc ctx addr hdr) = None
              \<longrightarrow> store_Get (kv w') (KeyForClaim pc ctx addr hdr) = None"
      by (auto simp: DeleteClaim_def store_Get_Delete)
    have D: "cache w' hdr = None \<and> store_Get (kv w') (KeyForClaim pc ctx addr hdr) = None"
      if "\<exists>q\<in>set (p # ps). MsgClaim.SessionHeader q = hdr"
    proof (cases "?h = hdr")
      case True
      with IH show ?thesis by (auto simp: DeleteInvoice_def DeleteClaim_def store_Get_Delete)
    next
      case False
      with that have "\<exists>q\<in>set ps. MsgClaim.SessionHeader q = hdr" by auto
      with IH show ?thesis by blast
    qed
    from A B C D show ?thesis by blast
  next
    case False
    have g': "GetInvoice pc k ctx (kv w) addr ?h = Inr (i, False)" using g False by simp
    from SendProofTx_loop_step_not_found [OF g' Cons.prems(1)]
    obtain c where c: "forClaim c = p"
      and run: "SendProofTx_loop pc k ctx n keybase claimTx addr ps (w\<lparr>sent := sent w @ [c]\<rparr>) = Inr w'"
      by blast
    let ?w1 = "w\<lparr>sent := sent w @ [c]\<rparr>"
    have ne: "?h \<noteq> hdr" using Cons.prems(2) g False by auto
    have inv1: "GetInvoice pc k ctx (kv ?w1) addr hdr = Inr (invoice, True)"
      using Cons.prems(2) by simp
    note IH = Cons.IH [OF run inv1]
    have s1: "x \<in> set (sent ?w1) \<Longrightarrow> x \<in> set (sent w) \<or> MsgClaim.SessionHeader (forClaim x) \<noteq> hdr" for x
      using c ne by auto
    have e1: "cache ?w1 = cache w" "kv ?w1 = kv w" by simp_all
    from IH s1 have A: "\<forall>c\<in>set (sent w'). c \<in> set (sent w) \<or> MsgClaim.SessionHeader (forClaim c) \<noteq> hdr"
      by blast
    from IH have B: "cache w hdr = None \<longrightarrow> cache w' hdr = None" unfolding e1 by blast
    from IH have C: "store_Get (kv w) (KeyForClaim pc ctx addr hdr) = None
              \<longrightarrow> store_Get (kv w') (KeyForClaim pc ctx addr hdr) = None" unfolding e1 by blast
    have D: "cache w' hdr = None \<and> store_Get (kv w') (KeyForClaim pc ctx addr hdr) = None"
      if "\<exists>q\<in>set (p # ps). MsgClaim.SessionHeader q = hdr"
    proof -
      from that ne have "\<exists>q\<in>set ps. MsgClaim.SessionHeader q = hdr" by auto
      with IH show ?thesis by blast
    qed
    from A B C D show ?thesis by blast
  qed
qed

text \<open>\<^bold>\<open>Claim C8.\<close>
  When \<^verbatim>\<open>SendProofTx\<close> completes, every mature claim of the node's address whose invoice is
  stored has lost its entry of the local cache and its entry of the claim store, and no
  proof transaction was sent for its session.
\<close>

theorem SendProofTx_settled_claims:
  assumes "keys_disjoint pc ctx"
      and "GetCoinbase keybase = Inr kp"
      and "GetMatureClaims pc k ctx store (GetAddress kp) = Inr claims"
      and "claim \<in> set claims"
      and "GetInvoice pc k ctx store (GetAddress kp) (MsgClaim.SessionHeader claim)
             = Inr (invoice, True)"
      and "SendProofTx pc k ctx n keybase claimTx store M = Inr w'"
  shows "cache w' (MsgClaim.SessionHeader claim) = None
       \<and> GetClaim pc k ctx (kv w') (GetAddress kp) (MsgClaim.SessionHeader claim)
            = Inr (MsgClaim_zero, False)
       \<and> (\<forall>c\<in>set (sent w'). MsgClaim.SessionHeader (forClaim c) \<noteq> MsgClaim.SessionHeader claim)"
proof -
  let ?w = "\<lparr>kv = store, cache = M, sent = []\<rparr>"
  have run: "SendProofTx_loop pc k ctx n keybase claimTx (GetAddress kp) claims ?w = Inr w'"
    using assms(2,3,6) by (simp add: SendProofTx_def)
  have inv: "GetInvoice pc k ctx (kv ?w) (GetAddress kp) (MsgClaim.SessionHeader claim)
               = Inr (invoice, True)"
    using assms(5) by simp
  from SendProofTx_loop_settled [OF assms(1) run inv] assms(4)
  have "cache w' (MsgClaim.SessionHeader claim) = None"
    and "store_Get (kv w') (KeyForClaim pc ctx (GetAddress kp) (MsgClaim.SessionHeader claim)) = None"
    and "\<forall>c\<in>set (sent w'). MsgClaim.SessionHeader (forClaim c) \<noteq> MsgClaim.SessionHeader claim"
    by auto
  then show ?thesis by (simp add: GetClaim_def)
qed

lemma ex_keys_disjoint: "keys_disjoint ex_pc ctx"
  by (simp add: keys_disjoint_def ex_pc_def)

lemma ex_mature:
  "GetMatureClaims ex_pc ex_k (ex_ctx 150 []) ex_store [0xAA] = Inr [ex_claim 100, ex_claim 120]"
  by (simp add: GetMatureClaims_def KVStorePrefixIterator_def ex_store_def ex_pc_def ex_k_def
        ex_codec_def ClaimIsMature_def ex_claim_def ex_header_def ex_ctx_def BlockHeight_def)

lemma ex_invoice_found:
  "GetInvoice ex_pc ex_k (ex_ctx 150 []) ex_store [0xAA] (ex_header 100) = Inr (ex_invoice 100, True)"
  by (simp add: GetInvoice_def store_Get_def ex_store_def ex_pc_def ex_k_def ex_codec_def
        ex_header_def)

lemma ex_invoice_not_found:
  "GetInvoice ex_pc ex_k (ex_ctx 150 []) (DeleteClaim ex_pc ex_k (ex_ctx 150 []) ex_store [0xAA] (ex_header 100)) [0xAA] (ex_header 120)
     = Inr (StoredInvoice_zero, False)"
  by (simp add: GetInvoice_def DeleteClaim_def store_Delete_def store_Get_def ex_store_def ex_pc_def ex_k_def ex_codec_def
        ex_header_def)

lemma ex_newTx:
  "newTxBuilderAndCliCtx (ex_ctx 150 []) ex_client ex_keybase ex_k =
     Inr (\<lparr>AccountNumber = 1, Sequence = 7, ChainID = ''testnet'', Memo = [],
           Fees = [(''upokt'', 10)]\<rparr>,
          \<lparr>FromAddr = [0xAA], Passphrase = ''secret'', BroadcastMode = ''sync''\<rparr>)"
  by (simp add: newTxBuilderAndCliCtx_def ex_client_def ex_keybase_def ex_k_def)

lemma ex_run:
  "SendProofTx ex_pc ex_k (ex_ctx 150 []) ex_client ex_keybase ex_claimTx ex_store ex_cache =
     Inr \<lparr>kv = DeleteClaim ex_pc ex_k (ex_ctx 150 []) ex_store [0xAA] (ex_header 100),
          cache = DeleteInvoice ex_cache (ex_header 100),
          sent = [\<lparr>forClaim = ex_claim 120, branches = (MerkleProof_zero, MerkleProof_zero),
                   leafNode = RelayProof_zero,
                   cousin = RelayProof_zero\<rparr>]\<rparr>"
proof -
  have h: "MsgClaim.SessionHeader (ex_claim x) = ex_header x"
          "MsgClaim.TotalRelays (ex_claim x) = 5" for x
    by (simp_all add: ex_claim_def)
  have gm: "GenerateMerkleProof ex_pc i r = ((MerkleProof_zero, MerkleProof_zero), 0)" for i r
    by (simp add: ex_pc_def)
  have gp: "GetProof ex_pc M h r = RelayProof_zero" for M h r
    by (simp add: ex_pc_def)
  have coin: "GetCoinbase ex_keybase = Inr \<lparr>PublicKey = [0xAA], GetAddress = [0xAA]\<rparr>"
    by (simp add: ex_keybase_def)
  show ?thesis
    by (simp add: SendProofTx_def coin ex_mature h ex_invoice_found ex_invoice_not_found ex_newTx
          ex_index_5 gm gp ex_claimTx_def)
qed

theorem SendProofTx_settled_claims_witness:
  "\<exists>w'. SendProofTx ex_pc ex_k (ex_ctx 150 []) ex_client ex_keybase ex_claimTx ex_store ex_cache = Inr w'
     \<and> ex_cache (ex_header 100) \<noteq> None
     \<and> cache w' (ex_header 100) = None
     \<and> GetClaim ex_pc ex_k (ex_ctx 150 []) (kv w') [0xAA] (ex_header 100) = Inr (MsgClaim_zero, False)
     \<and> map (\<lambda>c. MsgClaim.SessionHeader (forClaim c)) (sent w') = [ex_header 120]"
proof -
  have coin: "GetCoinbase ex_keybase = Inr \<lparr>PublicKey = [0xAA], GetAddress = [0xAA]\<rparr>"
    by (simp add: ex_keybase_def)
  have m: "GetMatureClaims ex_pc ex_k (ex_ctx 150 []) ex_store
             (GetAddress \<lparr>PublicKey = [0xAA], GetAddress = [0xAA]\<rparr>)
           = Inr [ex_claim 100, ex_claim 120]"
    using ex_mature by simp
  have mem: "ex_claim 100 \<in> set [ex_claim 100, ex_claim 120]" by simp
  have i: "GetInvoice ex_pc ex_k (ex_ctx 150 []) ex_store
             (GetAddress \<lparr>PublicKey = [0xAA], GetAddress = [0xAA]\<rparr>)
             (MsgClaim.SessionHeader (ex_claim 100)) = Inr (ex_invoice 100, True)"
    using ex_invoice_found by (simp add: ex_claim_def)
  from SendProofTx_settled_claims [OF ex_keys_disjoint coin m mem i ex_run]
  show ?thesis
    by (simp add: ex_run ex_claim_def ex_cache_def)
qed

end
